theory Spec2Isabelle
  imports Main "HOL-Library.Char_ord" "HOL-Library.List_Lexorder" "HOL-Library.Multiset"
begin

section \<open>Data model (src/index.tsx, the interfaces Question and Test)\<close>

datatype category = Quant | VARC | DILR

datatype test_type = MOCK | PYQ | PRACTICE

text \<open>
  An optional field of the TypeScript interface is an \<open>option\<close>; \<open>None\<close> is the absent
  field. The fields \<open>id\<close> and \<open>text\<close> carry a suffix, the other names are the source's.
\<close>

record Question =
  id_q :: string
  text_q :: string
  passage :: "string option"
  options :: "string list"
  correctAnswer :: int
  explanation :: "string option"
  category :: category
  isPremium :: "bool option"
  year :: "string option"
  slot :: "string option"

record Test =
  id_t :: string
  title :: string
  durationMinutes :: int
  questions :: "Question list"
  completed :: "bool option"
  score_t :: "int option"
  type_t :: "test_type option"

section \<open>The session engine (the component TestRunner)\<close>

text \<open>
  A slot of the JavaScript array \<open>answers\<close> holds a number; reading past the end of an
  array gives \<open>undefined\<close>, and writing past the end extends the array with holes.
\<close>

datatype jsval = JNum int | JUndefined

definition js_get :: "jsval list \<Rightarrow> nat \<Rightarrow> jsval" where
  "js_get xs i = (if i < length xs then xs ! i else JUndefined)"

definition js_set :: "jsval list \<Rightarrow> nat \<Rightarrow> jsval \<Rightarrow> jsval list" where
  "js_set xs i v =
     (if i < length xs then xs[i := v]
      else xs @ replicate (i - length xs) JUndefined @ [v])"

text \<open>
  The state of one mounted TestRunner. \<open>test\<close> and \<open>onFinish\<close> are its props
  (\<open>onFinish\<close> records whether \<open>typeof onFinish === 'function'\<close> holds); the next six
  fields are the \<open>useState\<close> cells. The last four fields make the effects of the
  component explicit: \<open>pending\<close> holds the continuations of \<open>handleSubmit\<close> that wait
  behind the 1500 ms \<open>await\<close>, each with the score it has already computed and the total
  it will pass on; \<open>emitted\<close> is the sequence of calls \<open>onFinish(score, total)\<close> made so
  far; \<open>console\<close> is the sequence of messages given to \<open>console.error\<close>, and
  \<open>alerts\<close> the sequence of messages shown by \<open>alert\<close>.
\<close>

record runner =
  test :: Test
  onFinish :: bool
  currentQ :: nat
  answers :: "jsval list"
  timeLeft :: int
  showPalette :: bool
  isSubmitting :: bool
  showConfirmModal :: bool
  pending :: "(nat \<times> nat) list"
  emitted :: "(nat \<times> nat) list"
  console :: "string list"
  alerts :: "string list"

text \<open>
  The loop \<open>test.questions.forEach((q, idx) => { if (finalAnswers[idx] === q.correctAnswer)
  score++; })\<close>, with the counter and the index passed along.
\<close>

fun score_loop :: "Question list \<Rightarrow> nat \<Rightarrow> jsval list \<Rightarrow> nat \<Rightarrow> nat" where
  "score_loop [] idx finalAnswers score = score"
| "score_loop (q # qs) idx finalAnswers score =
     score_loop qs (idx + 1) finalAnswers
       (if js_get finalAnswers idx = JNum (correctAnswer q) then score + 1 else score)"

text \<open>
  \<open>handleSubmit\<close> up to its \<open>await\<close>. The function is a closure of the render that
  created it, and its guard \<open>if (isSubmitting) return\<close> reads the constant
  \<open>isSubmitting\<close> of that render, not the state at the time of the call: the constant
  is the first argument. Then come the two state updates and the score, computed from
  \<open>answersRef.current\<close>, which the effect on \<open>[answers]\<close> keeps equal to the committed
  \<open>answers\<close>.
\<close>

definition handleSubmit :: "bool \<Rightarrow> runner \<Rightarrow> runner" where
  "handleSubmit captured s =
     (if captured then s
      else s\<lparr>isSubmitting := True,
             showConfirmModal := False,
             pending := pending s @
               [(score_loop (questions (test s)) 0 (answers s) 0,
                 length (questions (test s)))]\<rparr>)"

text \<open>
  The rest of \<open>handleSubmit\<close>, run when the 1500 ms timeout of the oldest waiting
  continuation fires. When the prop is a function it calls
  \<open>onFinish(score, test.questions.length)\<close>; the first argument tells whether that call
  throws (the app's \<open>onFinish\<close> is \<open>handleTestComplete\<close>, which writes to
  \<open>localStorage\<close>). A call that throws has received the score; the \<open>catch\<close> branch
  then logs, alerts and calls \<open>setIsSubmitting(false)\<close>. When the prop is no function
  nothing is called and nothing can throw: \<open>console.error\<close> and
  \<open>setIsSubmitting(false)\<close>.
\<close>

definition submitResume :: "bool \<Rightarrow> runner \<Rightarrow> runner" where
  "submitResume throws s =
     (case pending s of
        [] \<Rightarrow> s
      | (score, n) # rest \<Rightarrow>
          (if onFinish s
           then (if throws
                 then s\<lparr>pending := rest, emitted := emitted s @ [(score, n)],
                        console := console s @ [''Submission failed''],
                        alerts := alerts s @ [''Submission failed. Please try again.''],
                        isSubmitting := False\<rparr>
                 else s\<lparr>pending := rest, emitted := emitted s @ [(score, n)]\<rparr>)
           else s\<lparr>pending := rest,
                  console := console s @ [''onFinish prop missing''],
                  isSubmitting := False\<rparr>))"

text \<open>
  The effect on \<open>[timeLeft]\<close>, run after the render of the state \<open>s\<close>: at zero it
  calls the \<open>handleSubmit\<close> of that render and installs no interval; otherwise it
  installs the one-second interval whose callback is \<open>tick\<close>.
\<close>

definition timerEffect :: "runner \<Rightarrow> runner" where
  "timerEffect s = (if timeLeft s = 0 then handleSubmit (isSubmitting s) s else s)"

text \<open>
  One firing of the interval, \<open>setTimeLeft(t => t - 1)\<close>, followed by the effect of the
  render it causes. With \<open>timeLeft\<close> at zero no interval is installed, so nothing fires.
\<close>

definition tick :: "runner \<Rightarrow> runner" where
  "tick s =
     (if timeLeft s = 0 then s
      else timerEffect (s\<lparr>timeLeft := timeLeft s - 1\<rparr>))"

text \<open>The initial \<open>useState\<close> values of a mounted TestRunner, then its first effect.\<close>

definition initial :: "Test \<Rightarrow> bool \<Rightarrow> runner" where
  "initial t f =
     \<lparr>test = t, onFinish = f, currentQ = 0,
      answers = replicate (length (questions t)) (JNum (- 1)),
      timeLeft = durationMinutes t * 60,
      showPalette = False, isSubmitting = False, showConfirmModal = False,
      pending = [], emitted = [], console = [], alerts = []\<rparr>"

definition start :: "Test \<Rightarrow> bool \<Rightarrow> runner" where
  "start t f = timerEffect (initial t f)"

text \<open>\<open>handleSelect\<close>: copy the array, assign at \<open>currentQ\<close>, store the copy.\<close>

definition handleSelect :: "int \<Rightarrow> runner \<Rightarrow> runner" where
  "handleSelect idx s = s\<lparr>answers := js_set (answers s) (currentQ s) (JNum idx)\<rparr>"

text \<open>
  The remaining handlers of the component. A palette button exists for each index of
  \<open>test.questions\<close> only; Previous is disabled at the first question; Next and the
  Submit Test button are disabled while \<open>isSubmitting\<close>.
\<close>

definition goTo :: "nat \<Rightarrow> runner \<Rightarrow> runner" where
  "goTo idx s =
     (if idx < length (questions (test s))
      then s\<lparr>currentQ := idx, showPalette := False\<rparr> else s)"

definition previous :: "runner \<Rightarrow> runner" where
  "previous s = (if currentQ s = 0 then s else s\<lparr>currentQ := currentQ s - 1\<rparr>)"

definition next_q :: "runner \<Rightarrow> runner" where
  "next_q s =
     (if isSubmitting s then s
      else if int (currentQ s) < int (length (questions (test s))) - 1
      then s\<lparr>currentQ := currentQ s + 1\<rparr>
      else s\<lparr>showConfirmModal := True\<rparr>)"

definition requestSubmit :: "runner \<Rightarrow> runner" where
  "requestSubmit s = (if isSubmitting s then s else s\<lparr>showConfirmModal := True\<rparr>)"

definition dismissConfirm :: "runner \<Rightarrow> runner" where
  "dismissConfirm s = s\<lparr>showConfirmModal := False\<rparr>"

text \<open>
  The events a mounted TestRunner reacts to, and a run of them in order. React renders
  after an event, and the next event then reaches the closures of that render: this is
  what the handlers of \<open>step\<close> do, \<open>Submit\<close> (a click on Submit Now) among them. Two
  calls of \<open>handleSubmit\<close> can also come from one render, when React has not rendered
  again in between (the effect of the render that shows zero seconds, and a click
  handled before or after it): \<open>StaleSubmit\<close> is a call through the closure of a render
  in which \<open>isSubmitting\<close> was still false. \<open>DelayElapsed\<close> is the end of the 1500 ms
  delay with \<open>onFinish\<close> returning, \<open>DelayElapsedThrows\<close> with \<open>onFinish\<close> throwing.
\<close>

datatype event =
    Tick | Select int | GoTo nat | Previous | Next
  | RequestSubmit | DismissConfirm | Submit | StaleSubmit
  | DelayElapsed | DelayElapsedThrows

fun step :: "runner \<Rightarrow> event \<Rightarrow> runner" where
  "step s Tick = tick s"
| "step s (Select idx) = handleSelect idx s"
| "step s (GoTo idx) = goTo idx s"
| "step s Previous = previous s"
| "step s Next = next_q s"
| "step s RequestSubmit = requestSubmit s"
| "step s DismissConfirm = dismissConfirm s"
| "step s Submit = handleSubmit (isSubmitting s) s"
| "step s StaleSubmit = handleSubmit False s"
| "step s DelayElapsed = submitResume False s"
| "step s DelayElapsedThrows = submitResume True s"

definition run :: "runner \<Rightarrow> event list \<Rightarrow> runner" where
  "run s es = foldl step s es"

text \<open>
  Events that reach the closures of the latest render; and those of them that can occur
  while the delay of a submission runs.
\<close>

fun fresh :: "event \<Rightarrow> bool" where
  "fresh StaleSubmit = False"
| "fresh e = True"

fun duringDelay :: "event \<Rightarrow> bool" where
  "duringDelay StaleSubmit = False"
| "duringDelay DelayElapsed = False"
| "duringDelay DelayElapsedThrows = False"
| "duringDelay e = True"

text \<open>
  The states of the spec's state machine, read off the component: Running while
  \<open>isSubmitting\<close> is false, Submitting while a continuation waits behind the delay,
  Finished when none waits any more and \<open>isSubmitting\<close> has stayed true, which is after
  \<open>onFinish\<close> has returned.
\<close>

datatype status = Running | Submitting | Finished

definition status_of :: "runner \<Rightarrow> status" where
  "status_of s =
     (if \<not> isSubmitting s then Running
      else if pending s \<noteq> [] then Submitting else Finished)"

section \<open>The catalog partitioner (App.processQuestions)\<close>

subsection \<open>Previous-year papers\<close>

text \<open>
  \<open>q.year || "Unknown"\<close>: the default is taken when the field is absent and also when
  it is the empty string, which JavaScript counts as false.
\<close>

definition or_default :: "string option \<Rightarrow> string \<Rightarrow> string" where
  "or_default v d = (case v of None \<Rightarrow> d | Some x \<Rightarrow> if x = [] then d else x)"

definition year_of :: "Question \<Rightarrow> string" where
  "year_of q = or_default (year q) ''Unknown''"

definition slot_of :: "Question \<Rightarrow> string" where
  "slot_of q = or_default (slot q) ''Slot 1''"

text \<open>The template string \<open>`${year}-${slot}`\<close>.\<close>

definition key_of :: "Question \<Rightarrow> string" where
  "key_of q = year_of q @ ''-'' @ slot_of q"

record pyq_data =
  year_d :: string
  slot_d :: string
  count_d :: nat

record paper =
  id_p :: string
  year_p :: string
  slot_p :: string
  count_p :: nat

text \<open>
  A JavaScript \<open>Map\<close> keeps its keys in the order of their first insertion, and
  \<open>Array.from(pyqMap.entries())\<close> reads them in that order: an association list, with a
  new key added at the end.
\<close>

definition map_has :: "(string \<times> pyq_data) list \<Rightarrow> string \<Rightarrow> bool" where
  "map_has m k = (k \<in> set (map fst m))"

fun map_set :: "(string \<times> pyq_data) list \<Rightarrow> string \<Rightarrow> pyq_data \<Rightarrow> (string \<times> pyq_data) list" where
  "map_set [] k v = [(k, v)]"
| "map_set ((k', v') # m) k v =
     (if k' = k then (k, v) # m else (k', v') # map_set m k v)"

text \<open>\<open>pyqMap.get(key)!.count++\<close>: the object stored under the key is changed in place.\<close>

fun count_incr :: "(string \<times> pyq_data) list \<Rightarrow> string \<Rightarrow> (string \<times> pyq_data) list" where
  "count_incr [] k = []"
| "count_incr ((k', v') # m) k =
     (if k' = k then (k', v'\<lparr>count_d := count_d v' + 1\<rparr>) # m
      else (k', v') # count_incr m k)"

text \<open>The body of \<open>allQuestions.forEach\<close>, and the loop.\<close>

definition pyq_step :: "(string \<times> pyq_data) list \<Rightarrow> Question \<Rightarrow> (string \<times> pyq_data) list" where
  "pyq_step pyqMap q =
     (let y = year_of q; sl = slot_of q; key = y @ ''-'' @ sl;
          m = (if \<not> map_has pyqMap key
               then map_set pyqMap key \<lparr>year_d = y, slot_d = sl, count_d = 0\<rparr>
               else pyqMap)
      in count_incr m key)"

definition pyqMap_of :: "Question list \<Rightarrow> (string \<times> pyq_data) list" where
  "pyqMap_of allQuestions = foldl pyq_step [] allQuestions"

text \<open>
  \<open>String.prototype.localeCompare\<close> is a function of the JavaScript engine, whose order
  depends on the locale's collation: it is a parameter \<open>lc\<close> of the model, returning a
  negative number, zero or a positive number. The comparator is
  \<open>(a, b) => b.year.localeCompare(a.year) || a.slot.localeCompare(b.slot)\<close>; \<open>||\<close>
  takes its right operand when the left one is zero.
\<close>

definition paper_cmp :: "(string \<Rightarrow> string \<Rightarrow> int) \<Rightarrow> paper \<Rightarrow> paper \<Rightarrow> int" where
  "paper_cmp lc a b =
     (let c = lc (year_p b) (year_p a)
      in if c \<noteq> 0 then c else lc (slot_p a) (slot_p b))"

text \<open>
  \<open>Array.prototype.sort\<close> with a comparator is a stable sort: an element goes before
  another when the comparator is negative, and elements that compare equal keep their
  order. Insertion from the right end does that; for a comparator that orders the
  elements the result is the same whatever algorithm the engine uses.
\<close>

fun insert_by :: "('a \<Rightarrow> 'a \<Rightarrow> int) \<Rightarrow> 'a \<Rightarrow> 'a list \<Rightarrow> 'a list" where
  "insert_by cmp x [] = [x]"
| "insert_by cmp x (y # ys) =
     (if cmp x y \<le> 0 then x # y # ys else y # insert_by cmp x ys)"

fun sort_by :: "('a \<Rightarrow> 'a \<Rightarrow> int) \<Rightarrow> 'a list \<Rightarrow> 'a list" where
  "sort_by cmp [] = []"
| "sort_by cmp (x # xs) = insert_by cmp x (sort_by cmp xs)"

text \<open>The value given to \<open>setPyqPapers\<close>.\<close>

definition buildPaperDescriptors ::
  "(string \<Rightarrow> string \<Rightarrow> int) \<Rightarrow> Question list \<Rightarrow> paper list" where
  "buildPaperDescriptors lc allQuestions =
     sort_by (paper_cmp lc)
       (map (\<lambda>(k, d). \<lparr>id_p = k, year_p = year_d d, slot_p = slot_d d, count_p = count_d d\<rparr>)
            (pyqMap_of allQuestions))"

subsection \<open>Mock tests\<close>

text \<open>
  \<open>shuffle\<close> is \<open>array.sort(() => Math.random() - 0.5)\<close>: the order it leaves depends on
  the random numbers drawn and on the engine's sorting algorithm, so the function is a
  parameter of the model. It is applied to a fresh copy \<open>[...varcQs]\<close> of each subset,
  so the subsets themselves keep their order.
\<close>

definition quantQs :: "Question list \<Rightarrow> Question list" where
  "quantQs allQuestions = filter (\<lambda>q. category q = Quant) allQuestions"

definition varcQs :: "Question list \<Rightarrow> Question list" where
  "varcQs allQuestions = filter (\<lambda>q. category q = VARC) allQuestions"

definition dilrQs :: "Question list \<Rightarrow> Question list" where
  "dilrQs allQuestions = filter (\<lambda>q. category q = DILR) allQuestions"

definition fullMockQuestions ::
  "(Question list \<Rightarrow> Question list) \<Rightarrow> Question list \<Rightarrow> Question list" where
  "fullMockQuestions shuffle allQuestions =
     take 24 (shuffle (varcQs allQuestions)) @
     take 20 (shuffle (dilrQs allQuestions)) @
     take 22 (shuffle (quantQs allQuestions))"

definition finalQuestions ::
  "(Question list \<Rightarrow> Question list) \<Rightarrow> Question list \<Rightarrow> Question list" where
  "finalQuestions shuffle allQuestions =
     (if length (fullMockQuestions shuffle allQuestions) > 5
      then fullMockQuestions shuffle allQuestions else allQuestions)"

definition fullMock :: "(Question list \<Rightarrow> Question list) \<Rightarrow> Question list \<Rightarrow> Test" where
  "fullMock shuffle allQuestions =
     \<lparr>id_t = ''mock-full-1'', title = ''All India Open Mock (Full)'',
      durationMinutes = 120, questions = finalQuestions shuffle allQuestions,
      completed = None, score_t = None, type_t = Some MOCK\<rparr>"

definition quantMock :: "Question list \<Rightarrow> Test" where
  "quantMock allQuestions =
     \<lparr>id_t = ''mock-quant-1'', title = ''Quant Sectional Test 01'',
      durationMinutes = 40, questions = quantQs allQuestions,
      completed = None, score_t = None, type_t = Some MOCK\<rparr>"

definition varcMock :: "Question list \<Rightarrow> Test" where
  "varcMock allQuestions =
     \<lparr>id_t = ''mock-varc-1'', title = ''VARC Sectional Test 01'',
      durationMinutes = 40, questions = varcQs allQuestions,
      completed = None, score_t = None, type_t = Some MOCK\<rparr>"

definition dilrMock :: "Question list \<Rightarrow> Test" where
  "dilrMock allQuestions =
     \<lparr>id_t = ''mock-dilr-1'', title = ''DILR Sectional Test 01'',
      durationMinutes = 40, questions = dilrQs allQuestions,
      completed = None, score_t = None, type_t = Some MOCK\<rparr>"

text \<open>The value given to \<open>setMockTests\<close>.\<close>

definition buildMocks :: "(Question list \<Rightarrow> Question list) \<Rightarrow> Question list \<Rightarrow> Test list" where
  "buildMocks shuffle allQuestions =
     filter (\<lambda>t. length (questions t) > 0)
       [fullMock shuffle allQuestions, quantMock allQuestions,
        varcMock allQuestions, dilrMock allQuestions]"

text \<open>What the model asks of \<open>shuffle\<close>: it returns its argument in some order.\<close>

definition permutes :: "(Question list \<Rightarrow> Question list) \<Rightarrow> bool" where
  "permutes shuffle = (\<forall>xs. mset (shuffle xs) = mset xs)"

section \<open>The session host (App): practice questions\<close>

text \<open>\<open>handlePracticeQuestion\<close> builds the one-question test and makes it the active test.\<close>

definition practiceTest :: "Question \<Rightarrow> Test" where
  "practiceTest q =
     \<lparr>id_t = ''practice-'' @ id_q q, title = ''Practice Question'',
      durationMinutes = 5, questions = [q],
      completed = None, score_t = None, type_t = Some PRACTICE\<rparr>"

definition handlePracticeQuestion :: "Question \<Rightarrow> Test option \<Rightarrow> Test option" where
  "handlePracticeQuestion q activeTest = Some (practiceTest q)"

text \<open>
  The click handler of a practice card, \<open>() => !q.isPremium && handlePracticeQuestion(q)\<close>;
  an absent \<open>isPremium\<close> counts as false.
\<close>

definition truthy :: "bool option \<Rightarrow> bool" where
  "truthy b = (case b of None \<Rightarrow> False | Some v \<Rightarrow> v)"

definition solveNow :: "Question \<Rightarrow> Test option \<Rightarrow> Test option" where
  "solveNow q activeTest =
     (if \<not> truthy (isPremium q) then handlePracticeQuestion q activeTest else activeTest)"

text \<open>
  The practice view shows a card for each of \<open>questions.slice(0, 10)\<close>; a click on the
  card at position \<open>idx\<close> runs its handler, and there is no card past the slice.
\<close>

definition practiceClick :: "Question list \<Rightarrow> nat \<Rightarrow> Test option \<Rightarrow> Test option" where
  "practiceClick qs idx activeTest =
     (if idx < length (take 10 qs) then solveNow (take 10 qs ! idx) activeTest
      else activeTest)"

section \<open>The session host (App): previous-year papers\<close>

text \<open>
  \<open>startPyqTest\<close>, called with the year and slot of a descriptor: it filters the catalog
  by the two fields, with the same defaults; with no question left it shows an alert and
  starts nothing (\<open>Inl\<close>), otherwise the test becomes the active test (\<open>Inr\<close>).
\<close>

definition startPyqTest :: "Question list \<Rightarrow> string \<Rightarrow> string \<Rightarrow> string + Test" where
  "startPyqTest qs y sl =
     (let paperQuestions = filter (\<lambda>q. year_of q = y \<and> slot_of q = sl) qs
      in if length paperQuestions = 0 then Inl ''No questions found for this slot.''
         else Inr \<lparr>id_t = ''pyq-'' @ y @ ''-'' @ sl,
                   title = ''CAT '' @ y @ '' '' @ sl @ '' (Official)'',
                   durationMinutes = 60, questions = paperQuestions,
                   completed = None, score_t = None, type_t = Some PYQ\<rparr>)"

section \<open>Example data\<close>

definition sampleQ :: "string \<Rightarrow> category \<Rightarrow> int \<Rightarrow> string option \<Rightarrow> string option \<Rightarrow> Question" where
  "sampleQ i c a y sl =
     \<lparr>id_q = i, text_q = ''What is the answer?'', passage = None,
      options = [''A'', ''B'', ''C'', ''D''], correctAnswer = a, explanation = None,
      category = c, isPremium = None, year = y, slot = sl\<rparr>"

definition sampleTest :: "int \<Rightarrow> Question list \<Rightarrow> Test" where
  "sampleTest d qs =
     \<lparr>id_t = ''t1'', title = ''Sample'', durationMinutes = d, questions = qs,
      completed = None, score_t = None, type_t = Some MOCK\<rparr>"

definition sampleTest2 :: Test where
  "sampleTest2 =
     sampleTest 1 [sampleQ ''q1'' Quant 1 None None, sampleQ ''q2'' VARC 2 None None]"

text \<open>A one-minute test of two questions, the first answered (correctly), the second not.\<close>

definition sampleRunner :: runner where
  "sampleRunner = run (start sampleTest2 True) [Select 1]"

text \<open>The same test one second before its time is up, and a runner without \<open>onFinish\<close>.\<close>

definition lastSecond :: runner where
  "lastSecond = run (start sampleTest2 True) (replicate 59 Tick)"

definition orphanRunner :: runner where
  "orphanRunner = start sampleTest2 False"

text \<open>A catalog of \<open>n\<close> questions of each category, and a premium question.\<close>

definition sampleCatalog :: "nat \<Rightarrow> Question list" where
  "sampleCatalog n =
     concat (replicate n
       [sampleQ ''q'' Quant 0 None None, sampleQ ''v'' VARC 1 None None,
        sampleQ ''d'' DILR 2 None None])"

definition premiumQ :: Question where
  "premiumQ = (sampleQ ''p'' Quant 0 None None)\<lparr>isPremium := Some True\<rparr>"

text \<open>
  Three years in one slot, the last question without a slot; and two questions whose
  years and slots differ while \<open>`${year}-${slot}`\<close> is the same string.
\<close>

definition sampleYears :: "Question list" where
  "sampleYears =
     [sampleQ ''a'' Quant 0 (Some ''2021'') (Some ''Slot 1''),
      sampleQ ''b'' VARC 1 (Some ''2023'') (Some ''Slot 1''),
      sampleQ ''c'' DILR 2 (Some ''2022'') (Some ''Slot 1''),
      sampleQ ''d'' Quant 3 (Some ''2023'') None]"

text \<open>
  One collation for the examples: the order of the character codes, which is how every
  collation orders strings of digits of one length.
\<close>

definition codeOrder :: "string \<Rightarrow> string \<Rightarrow> int" where
  "codeOrder a b = (if a < b then - 1 else if a = b then 0 else 1)"

definition sampleClash :: "Question list" where
  "sampleClash =
     [sampleQ ''a'' Quant 0 (Some ''2023-1'') (Some ''A''),
      sampleQ ''b'' Quant 0 (Some ''2023'') (Some ''1-A'')]"

section \<open>Properties of the session engine\<close>

subsection \<open>Runs of events\<close>

lemmas handler_defs =
  tick_def timerEffect_def handleSubmit_def submitResume_def handleSelect_def
  goTo_def previous_def next_q_def requestSubmit_def dismissConfirm_def

lemma run_Nil [simp]: "run s [] = s"
  by (simp add: run_def)

lemma run_Cons [simp]: "run s (e # es) = run (step s e) es"
  by (simp add: run_def)

lemma run_append: "run s (es @ es') = run (run s es) es'"
  by (simp add: run_def)

lemma step_props: "test (step s e) = test s \<and> onFinish (step s e) = onFinish s"
  by (cases e) (auto simp: handler_defs split: list.splits)

lemma run_props: "test (run s es) = test s \<and> onFinish (run s es) = onFinish s"
  by (induction es arbitrary: s) (simp_all add: step_props)

lemma start_props: "test (start t f) = t" "onFinish (start t f) = f"
  by (simp_all add: start_def initial_def timerEffect_def handleSubmit_def)

text \<open>The cursor stays on a question and the answer array keeps one slot per question.\<close>

lemma step_cursor:
  assumes "length (answers s) = length (questions (test s))"
    and "currentQ s < length (questions (test s))"
  shows "length (answers (step s e)) = length (questions (test (step s e)))
         \<and> currentQ (step s e) < length (questions (test (step s e)))"
  using assms by (cases e) (auto simp: handler_defs js_set_def split: list.splits)

lemma run_cursor:
  assumes "length (answers s) = length (questions (test s))"
    and "currentQ s < length (questions (test s))"
  shows "length (answers (run s es)) = length (questions (test (run s es)))
         \<and> currentQ (run s es) < length (questions (test (run s es)))"
  using assms
proof (induction es arbitrary: s)
  case Nil
  then show ?case by simp
next
  case (Cons e es)
  from step_cursor[OF Cons.prems, of e]
  have "length (answers (step s e)) = length (questions (test (step s e)))"
    and "currentQ (step s e) < length (questions (test (step s e)))"
    by blast+
  from Cons.IH[OF this] show ?case by simp
qed

lemma reachable_cursor:
  assumes "questions t \<noteq> []"
  shows "currentQ (run (start t f) es) < length (answers (run (start t f) es))"
proof -
  have "length (answers (start t f)) = length (questions (test (start t f)))"
    and "currentQ (start t f) < length (questions (test (start t f)))"
    using assms by (simp_all add: start_def initial_def timerEffect_def handleSubmit_def)
  from run_cursor[OF this, of es] show ?thesis by simp
qed

subsection \<open>The countdown\<close>

lemma ticks_run:
  assumes "0 \<le> durationMinutes t"
  shows "run (start t f) (replicate n Tick) =
           (if int n < durationMinutes t * 60
            then (initial t f)\<lparr>timeLeft := durationMinutes t * 60 - int n\<rparr>
            else handleSubmit False ((initial t f)\<lparr>timeLeft := 0\<rparr>))"
proof (induction n)
  case 0
  show ?case
    using assms by (auto simp: start_def timerEffect_def initial_def)
next
  case (Suc n)
  have "run (start t f) (replicate (Suc n) Tick) = tick (run (start t f) (replicate n Tick))"
  proof -
    have "replicate (Suc n) Tick = replicate n Tick @ [Tick]"
      by (simp add: replicate_append_same)
    then show ?thesis by (simp only: run_append) simp
  qed
  also have "\<dots> = (if int (Suc n) < durationMinutes t * 60
            then (initial t f)\<lparr>timeLeft := durationMinutes t * 60 - int (Suc n)\<rparr>
            else handleSubmit False ((initial t f)\<lparr>timeLeft := 0\<rparr>))"
    unfolding Suc.IH
    by (auto simp: tick_def timerEffect_def handleSubmit_def initial_def)
  finally show ?case .
qed

lemma step_timeLeft: "0 \<le> timeLeft s \<Longrightarrow> 0 \<le> timeLeft (step s e)"
  by (cases e) (auto simp: handler_defs split: list.splits)

lemma run_timeLeft: "0 \<le> timeLeft s \<Longrightarrow> 0 \<le> timeLeft (run s es)"
  by (induction es arbitrary: s) (simp_all add: step_timeLeft)

subsection \<open>The scoring loop\<close>

lemma score_loop_enumerate:
  "score_loop qs i fa sc =
     sc + length (filter (\<lambda>(j, q). js_get fa j = JNum (correctAnswer q)) (enumerate i qs))"
  by (induction qs arbitrary: i sc) simp_all

lemma score_loop_card:
  "score_loop qs 0 fa 0 =
     card {i. i < length qs \<and> js_get fa i = JNum (correctAnswer (qs ! i))}"
proof -
  have "{i. i < length (enumerate 0 qs) \<and>
            (case enumerate 0 qs ! i of (j, q) \<Rightarrow> js_get fa j = JNum (correctAnswer q))}
        = {i. i < length qs \<and> js_get fa i = JNum (correctAnswer (qs ! i))}"
    by (auto simp: nth_enumerate_eq)
  then show ?thesis
    by (simp add: score_loop_enumerate length_filter_conv_card)
qed

lemma score_loop_le: "score_loop qs 0 fa 0 \<le> length qs"
proof -
  have "length (filter (\<lambda>(j, q). js_get fa j = JNum (correctAnswer q)) (enumerate 0 qs))
          \<le> length (enumerate 0 qs)"
    by (rule length_filter_le)
  then show ?thesis by (simp add: score_loop_enumerate)
qed

lemma score_unanswered:
  assumes "\<forall>q\<in>set qs. 0 \<le> correctAnswer q"
  shows "card {i. i < length qs \<and> js_get fa i = JNum (correctAnswer (qs ! i))}
         + card {i. i < length qs \<and> js_get fa i = JNum (- 1)} \<le> length qs"
proof -
  let ?A = "{i. i < length qs \<and> js_get fa i = JNum (correctAnswer (qs ! i))}"
  let ?B = "{i. i < length qs \<and> js_get fa i = JNum (- 1)}"
  have fin: "finite ?A" "finite ?B" by simp_all
  have pos: "correctAnswer (qs ! i) \<noteq> - 1" if "i < length qs" for i
  proof -
    from that have "qs ! i \<in> set qs" by simp
    with assms have "0 \<le> correctAnswer (qs ! i)" by blast
    then show ?thesis by simp
  qed
  have disj: "?A \<inter> ?B = {}"
  proof -
    have False if "i \<in> ?A" and "i \<in> ?B" for i
    proof -
      from that have "i < length qs" and "JNum (correctAnswer (qs ! i)) = JNum (- 1)"
        by simp_all
      with pos[of i] show False by simp
    qed
    then show ?thesis by blast
  qed
  have "?A \<union> ?B \<subseteq> {..<length qs}" by auto
  then have "card (?A \<union> ?B) \<le> card {..<length qs}"
    by (intro card_mono) simp_all
  then show ?thesis using card_Un_disjoint[OF fin disj] by simp
qed

subsection \<open>Scoring at submission\<close>

text \<open>
  Claim C3. A submission that goes through hands over exactly one pair: the number of
  positions whose answer slot equals that question's \<open>correctAnswer\<close>, and the number of
  questions of the test. The score never exceeds the total. When every \<open>correctAnswer\<close>
  is a valid index (not negative, the invariant of the data model), the unanswered slots
  (those holding \<open>-1\<close>) are all outside the score and still inside the total.
\<close>

theorem submit_scores_positionally:
  assumes "\<not> isSubmitting s" and "pending s = []" and "onFinish s"
  shows "emitted (run s [Submit, DelayElapsed]) =
           emitted s @
             [(card {i. i < length (questions (test s)) \<and>
                        js_get (answers s) i = JNum (correctAnswer (questions (test s) ! i))},
               length (questions (test s)))]
         \<and> card {i. i < length (questions (test s)) \<and>
                    js_get (answers s) i = JNum (correctAnswer (questions (test s) ! i))}
             \<le> length (questions (test s))
         \<and> ((\<forall>q\<in>set (questions (test s)). 0 \<le> correctAnswer q) \<longrightarrow>
               card {i. i < length (questions (test s)) \<and>
                        js_get (answers s) i = JNum (correctAnswer (questions (test s) ! i))}
               + card {i. i < length (questions (test s)) \<and> js_get (answers s) i = JNum (- 1)}
               \<le> length (questions (test s)))"
proof -
  have "emitted (run s [Submit, DelayElapsed]) =
          emitted s @ [(score_loop (questions (test s)) 0 (answers s) 0,
                        length (questions (test s)))]"
    using assms by (simp add: handleSubmit_def submitResume_def)
  moreover have "score_loop (questions (test s)) 0 (answers s) 0 \<le> length (questions (test s))"
    by (rule score_loop_le)
  ultimately show ?thesis
    using score_unanswered[of "questions (test s)" "answers s"]
    by (simp add: score_loop_card)
qed

lemma sampleRunner_eq:
  "sampleRunner = (initial sampleTest2 True)\<lparr>answers := [JNum 1, JNum (- 1)]\<rparr>"
  by (simp add: sampleRunner_def start_def timerEffect_def initial_def handleSelect_def
      js_set_def sampleTest2_def sampleTest_def)

lemma sampleRunner_fields:
  "\<not> isSubmitting sampleRunner" "pending sampleRunner = []" "onFinish sampleRunner"
  "emitted sampleRunner = []" "answers sampleRunner = [JNum 1, JNum (- 1)]"
  "test sampleRunner = sampleTest2" "timeLeft sampleRunner = 60" "currentQ sampleRunner = 0"
  unfolding sampleRunner_eq by (simp_all add: initial_def sampleTest2_def sampleTest_def)

lemma sampleTest2_questions:
  "length (questions sampleTest2) = 2"
  "\<forall>q\<in>set (questions sampleTest2). 0 \<le> correctAnswer q"
  by (simp_all add: sampleTest2_def sampleTest_def sampleQ_def)

theorem submit_scores_positionally_witness:
  "\<not> isSubmitting sampleRunner \<and> pending sampleRunner = [] \<and> onFinish sampleRunner
   \<and> map correctAnswer (questions (test sampleRunner)) = [1, 2]
   \<and> answers sampleRunner = [JNum 1, JNum (- 1)]
   \<and> emitted (run sampleRunner [Submit, DelayElapsed]) = [(1, 2)]
   \<and> 1 + card {i. i < length (questions (test sampleRunner)) \<and>
                  js_get (answers sampleRunner) i = JNum (- 1)} \<le> 2"
proof -
  note h = sampleRunner_fields(1-3)
  have v: "\<forall>q\<in>set (questions (test sampleRunner)). 0 \<le> correctAnswer q"
    by (simp add: sampleRunner_fields sampleTest2_questions)
  have e: "emitted (run sampleRunner [Submit, DelayElapsed]) = [(1, 2)]"
    unfolding sampleRunner_eq
    by (simp add: initial_def handleSubmit_def submitResume_def js_get_def
        sampleTest2_def sampleTest_def sampleQ_def)
  from submit_scores_positionally[OF h] e v
  have "1 + card {i. i < length (questions (test sampleRunner)) \<and>
                  js_get (answers sampleRunner) i = JNum (- 1)} \<le> 2"
    by (simp add: sampleRunner_fields sampleTest2_questions)
  moreover have "map correctAnswer (questions (test sampleRunner)) = [1, 2]"
    by (simp add: sampleRunner_fields sampleTest2_def sampleTest_def sampleQ_def)
  ultimately show ?thesis
    using h e sampleRunner_fields(5) by blast
qed

subsection \<open>The submission guard\<close>

text \<open>
  The guard of \<open>handleSubmit\<close> as an invariant of the runs in which every event reaches
  the closures of the latest render: a continuation waits only while \<open>isSubmitting\<close>
  holds, at most one waits, and the scores handed over and waiting are at most one more
  than the completions that have thrown.
\<close>

lemma step_guard:
  assumes "fresh e"
    and "\<not> isSubmitting s \<longrightarrow> pending s = [] \<and> length (emitted s) \<le> k"
    and "length (pending s) \<le> 1"
    and "length (pending s) + length (emitted s) \<le> 1 + k"
  shows "(\<not> isSubmitting (step s e) \<longrightarrow>
            pending (step s e) = []
          \<and> length (emitted (step s e)) \<le> k + (if e = DelayElapsedThrows then 1 else 0))
       \<and> length (pending (step s e)) \<le> 1
       \<and> length (pending (step s e)) + length (emitted (step s e))
           \<le> 1 + (k + (if e = DelayElapsedThrows then 1 else 0))"
  using assms by (cases e) (auto simp: handler_defs split: list.splits)

lemma run_guard:
  assumes "list_all fresh es"
    and "\<not> isSubmitting s \<longrightarrow> pending s = [] \<and> length (emitted s) \<le> k"
    and "length (pending s) \<le> 1"
    and "length (pending s) + length (emitted s) \<le> 1 + k"
  shows "(\<not> isSubmitting (run s es) \<longrightarrow>
            pending (run s es) = []
          \<and> length (emitted (run s es)) \<le> k + length (filter (\<lambda>e. e = DelayElapsedThrows) es))
       \<and> length (pending (run s es)) \<le> 1
       \<and> length (pending (run s es)) + length (emitted (run s es))
           \<le> 1 + (k + length (filter (\<lambda>e. e = DelayElapsedThrows) es))"
  using assms
proof (induction es arbitrary: s k)
  case Nil
  then show ?case by simp
next
  case (Cons e es)
  let ?k = "k + (if e = DelayElapsedThrows then 1 else 0)"
  from Cons.prems(1) have e: "fresh e" and es: "list_all fresh es" by simp_all
  from step_guard[OF e Cons.prems(2-4)]
  have "\<not> isSubmitting (step s e) \<longrightarrow>
          pending (step s e) = [] \<and> length (emitted (step s e)) \<le> ?k"
    and "length (pending (step s e)) \<le> 1"
    and "length (pending (step s e)) + length (emitted (step s e)) \<le> 1 + ?k"
    by blast+
  from Cons.IH[OF es this] show ?case
    by (cases "e = DelayElapsedThrows") (simp_all add: add.assoc)
qed

lemma reachable_guard:
  assumes "list_all fresh es"
  shows "(\<not> isSubmitting (run (start t f) es) \<longrightarrow> pending (run (start t f) es) = [])
       \<and> length (pending (run (start t f) es)) \<le> 1
       \<and> length (pending (run (start t f) es)) + length (emitted (run (start t f) es))
           \<le> 1 + length (filter (\<lambda>e. e = DelayElapsedThrows) es)"
proof -
  have "\<not> isSubmitting (start t f) \<longrightarrow>
          pending (start t f) = [] \<and> length (emitted (start t f)) \<le> 0"
    and "length (pending (start t f)) \<le> 1"
    and "length (pending (start t f)) + length (emitted (start t f)) \<le> 1 + 0"
    by (simp_all add: start_def initial_def timerEffect_def handleSubmit_def)
  from run_guard[OF assms this] show ?thesis by simp
qed

text \<open>
  Claim C4, as amended. Let every event reach the closures of the latest render, as it
  does when React renders between the events. In every state the attempt can reach, a
  submit does its work only when the attempt is Running and is the identity when it is
  Submitting or Finished, so a second submit right after the first changes nothing; at
  most one submission waits behind its delay; two submits in a row, followed by the
  delays, hand over exactly one more score; in the last second, a tick that reaches
  zero followed by a manual submit is the tick alone, and a manual submit followed by
  that tick only moves the clock. The guard is released when the completion fails:
  the scores handed over and waiting are at most one more than the completions that
  have thrown.
\<close>

theorem submit_guard_between_renders:
  assumes "list_all fresh es" and "s = run (start t f) es"
  shows "step s Submit =
           (if status_of s = Running
            then s\<lparr>isSubmitting := True, showConfirmModal := False,
                   pending := [(score_loop (questions t) 0 (answers s) 0,
                                length (questions t))]\<rparr>
            else s)
       \<and> run s [Submit, Submit] = run s [Submit]
       \<and> length (pending s) \<le> 1
       \<and> length (pending s) + length (emitted s)
           \<le> 1 + length (filter (\<lambda>e. e = DelayElapsedThrows) es)
       \<and> (status_of s = Running \<and> f \<longrightarrow>
            emitted (run s [Submit, Submit, DelayElapsed, DelayElapsed]) =
              emitted s @ [(score_loop (questions t) 0 (answers s) 0, length (questions t))])
       \<and> (status_of s = Running \<and> timeLeft s = 1 \<longrightarrow>
            run s [Tick, Submit] = run s [Tick]
          \<and> run s [Submit, Tick] = (run s [Submit])\<lparr>timeLeft := 0\<rparr>)"
proof -
  from reachable_guard[OF assms(1), of t f] assms(2)
  have g: "\<not> isSubmitting s \<longrightarrow> pending s = []"
    and b: "length (pending s) \<le> 1"
    and c: "length (pending s) + length (emitted s)
             \<le> 1 + length (filter (\<lambda>e. e = DelayElapsedThrows) es)"
    by blast+
  have p: "test s = t" "onFinish s = f"
    using run_props[of "start t f" es] assms(2) by (simp_all add: start_props)
  have 0: "step s Submit =
           (if status_of s = Running
            then s\<lparr>isSubmitting := True, showConfirmModal := False,
                   pending := [(score_loop (questions t) 0 (answers s) 0,
                                length (questions t))]\<rparr>
            else s)"
    using g p by (auto simp: status_of_def handleSubmit_def split: if_splits)
  have 1: "run s [Submit, Submit] = run s [Submit]"
    by (simp add: handleSubmit_def)
  have 4: "status_of s = Running \<and> f \<longrightarrow>
            emitted (run s [Submit, Submit, DelayElapsed, DelayElapsed]) =
              emitted s @ [(score_loop (questions t) 0 (answers s) 0, length (questions t))]"
    using g p by (auto simp: status_of_def handleSubmit_def submitResume_def split: if_splits)
  have 5: "status_of s = Running \<and> timeLeft s = 1 \<longrightarrow>
            run s [Tick, Submit] = run s [Tick]
          \<and> run s [Submit, Tick] = (run s [Submit])\<lparr>timeLeft := 0\<rparr>"
    by (auto simp: status_of_def handleSubmit_def tick_def timerEffect_def split: if_splits)
  from 0 1 b c 4 5 show ?thesis by blast
qed

lemma lastSecond_eq: "lastSecond = (initial sampleTest2 True)\<lparr>timeLeft := 1\<rparr>"
proof -
  have "0 \<le> durationMinutes sampleTest2"
    by (simp add: sampleTest2_def sampleTest_def)
  from ticks_run[OF this, of True 59] show ?thesis
    by (simp add: lastSecond_def sampleTest2_def sampleTest_def)
qed

theorem submit_guard_between_renders_witness:
  "list_all fresh (replicate 59 Tick)
   \<and> status_of lastSecond = Running \<and> timeLeft lastSecond = 1 \<and> onFinish lastSecond
   \<and> emitted (run lastSecond [Submit, Submit, DelayElapsed, DelayElapsed]) = [(0, 2)]
   \<and> run lastSecond [Tick, Submit] = run lastSecond [Tick]
   \<and> run lastSecond [Submit, Tick] = (run lastSecond [Submit])\<lparr>timeLeft := 0\<rparr>"
proof -
  have f: "list_all fresh (replicate 59 Tick)"
    by (simp add: list_all_iff)
  have r: "status_of lastSecond = Running" "timeLeft lastSecond = 1" "onFinish lastSecond"
    "answers lastSecond = [JNum (- 1), JNum (- 1)]" "emitted lastSecond = []"
    unfolding lastSecond_eq
    by (simp_all add: status_of_def initial_def sampleTest2_def sampleTest_def)
  have sc: "score_loop (questions sampleTest2) 0 [JNum (- 1), JNum (- 1)] 0 = 0"
    "length (questions sampleTest2) = 2"
    by (simp_all add: sampleTest2_def sampleTest_def sampleQ_def js_get_def)
  note th = submit_guard_between_renders[OF f lastSecond_def]
  from th r(1,3)
  have "emitted (run lastSecond [Submit, Submit, DelayElapsed, DelayElapsed]) =
          emitted lastSecond @ [(score_loop (questions sampleTest2) 0 (answers lastSecond) 0,
            length (questions sampleTest2))]"
    by blast
  then have e: "emitted (run lastSecond [Submit, Submit, DelayElapsed, DelayElapsed]) = [(0, 2)]"
    unfolding r(4,5) sc by simp
  from th r(1,2)
  have "run lastSecond [Tick, Submit] = run lastSecond [Tick]
      \<and> run lastSecond [Submit, Tick] = (run lastSecond [Submit])\<lparr>timeLeft := 0\<rparr>"
    by blast
  with f r(1-3) e show ?thesis by blast
qed

text \<open>
  The claim as stated fails in two ways. When \<open>onFinish\<close> throws, the \<open>catch\<close> branch
  sets \<open>isSubmitting\<close> back to false after the score was handed over, and the submit
  that follows hands it over again. And the guard reads the \<open>isSubmitting\<close> of the
  render: in the last second the tick brings the counter to zero and the effect of that
  render submits, a click on Submit Now that reaches the closure of the same render
  passes the guard as well, and after the two delays \<open>onFinish\<close> has been called twice.
\<close>

theorem double_emission_counterexample:
  "status_of sampleRunner = Running
   \<and> status_of (run sampleRunner [Submit, DelayElapsedThrows]) = Running
   \<and> emitted (run sampleRunner [Submit, DelayElapsedThrows]) = [(1, 2)]
   \<and> emitted (run sampleRunner [Submit, DelayElapsedThrows, Submit, DelayElapsed])
       = [(1, 2), (1, 2)]
   \<and> status_of lastSecond = Running
   \<and> status_of (run lastSecond [Tick]) = Submitting
   \<and> pending (run lastSecond [Tick, StaleSubmit]) = [(0, 2), (0, 2)]
   \<and> emitted (run lastSecond [Tick, StaleSubmit, DelayElapsed, DelayElapsed]) = [(0, 2), (0, 2)]
   \<and> emitted (run sampleRunner [Submit, StaleSubmit, DelayElapsed, DelayElapsed])
       = [(1, 2), (1, 2)]"
proof -
  have 1: "status_of lastSecond = Running
   \<and> status_of (run lastSecond [Tick]) = Submitting
   \<and> pending (run lastSecond [Tick, StaleSubmit]) = [(0, 2), (0, 2)]
   \<and> emitted (run lastSecond [Tick, StaleSubmit, DelayElapsed, DelayElapsed]) = [(0, 2), (0, 2)]"
    unfolding lastSecond_eq
    by (simp add: status_of_def initial_def tick_def timerEffect_def handleSubmit_def
        submitResume_def js_get_def sampleTest2_def sampleTest_def sampleQ_def)
  have 2: "status_of sampleRunner = Running
   \<and> status_of (run sampleRunner [Submit, DelayElapsedThrows]) = Running
   \<and> emitted (run sampleRunner [Submit, DelayElapsedThrows]) = [(1, 2)]
   \<and> emitted (run sampleRunner [Submit, DelayElapsedThrows, Submit, DelayElapsed])
       = [(1, 2), (1, 2)]
   \<and> emitted (run sampleRunner [Submit, StaleSubmit, DelayElapsed, DelayElapsed])
       = [(1, 2), (1, 2)]"
    unfolding sampleRunner_eq
    by (simp add: status_of_def initial_def handleSubmit_def submitResume_def js_get_def
        sampleTest2_def sampleTest_def sampleQ_def)
  from 1 2 show ?thesis by blast
qed

subsection \<open>The timer\<close>

text \<open>
  Claim C5. For a test whose duration is not negative: the counter starts at
  \<open>durationMinutes * 60\<close>; it is never negative, whatever events occur; a tick takes
  exactly one from a counter that is not zero, and the tick that brings it to zero is
  \<open>handleSubmit\<close> on the state with the counter at zero, that is, a manual submit; there
  is no tick at zero. After \<open>n\<close> ticks and nothing else the counter is
  \<open>durationMinutes * 60 - n\<close>, or zero from then on, and one submission, no more, has
  been started exactly when \<open>n\<close> has reached \<open>durationMinutes * 60\<close>; its score is
  handed over once after the delay when \<open>onFinish\<close> is present.
\<close>

theorem timer_counts_down:
  assumes "0 \<le> durationMinutes t"
  shows "timeLeft (initial t f) = durationMinutes t * 60
       \<and> 0 \<le> timeLeft (run (start t f) es)
       \<and> tick s = (if timeLeft s = 0 then s
                   else if timeLeft s = 1
                   then handleSubmit (isSubmitting s) (s\<lparr>timeLeft := 0\<rparr>)
                   else s\<lparr>timeLeft := timeLeft s - 1\<rparr>)
       \<and> step (s\<lparr>timeLeft := 0\<rparr>) Submit = handleSubmit (isSubmitting s) (s\<lparr>timeLeft := 0\<rparr>)
       \<and> timeLeft (tick s) = (if timeLeft s = 0 then 0 else timeLeft s - 1)
       \<and> timeLeft (run (start t f) (replicate n Tick)) = max 0 (durationMinutes t * 60 - int n)
       \<and> pending (run (start t f) (replicate n Tick)) =
           (if int n < durationMinutes t * 60 then []
            else [(score_loop (questions t) 0 (replicate (length (questions t)) (JNum (- 1))) 0,
                   length (questions t))])
       \<and> emitted (run (start t f) (replicate n Tick)) = []
       \<and> emitted (run (start t f) (replicate n Tick @ [DelayElapsed])) =
           (if int n < durationMinutes t * 60 \<or> \<not> f then []
            else [(score_loop (questions t) 0 (replicate (length (questions t)) (JNum (- 1))) 0,
                   length (questions t))])"
proof -
  have 1: "timeLeft (initial t f) = durationMinutes t * 60"
    by (simp add: initial_def)
  have "0 \<le> timeLeft (start t f)"
    using assms by (simp add: start_def timerEffect_def handleSubmit_def initial_def)
  then have 2: "0 \<le> timeLeft (run (start t f) es)"
    by (rule run_timeLeft)
  have 3: "tick s = (if timeLeft s = 0 then s
                   else if timeLeft s = 1
                   then handleSubmit (isSubmitting s) (s\<lparr>timeLeft := 0\<rparr>)
                   else s\<lparr>timeLeft := timeLeft s - 1\<rparr>)"
    by (simp add: tick_def timerEffect_def)
  have m: "step (s\<lparr>timeLeft := 0\<rparr>) Submit = handleSubmit (isSubmitting s) (s\<lparr>timeLeft := 0\<rparr>)"
    by simp
  have 4: "timeLeft (tick s) = (if timeLeft s = 0 then 0 else timeLeft s - 1)"
    by (simp add: tick_def timerEffect_def handleSubmit_def)
  note r = ticks_run[OF assms, of f n]
  have 6: "timeLeft (run (start t f) (replicate n Tick)) = max 0 (durationMinutes t * 60 - int n)"
    unfolding r by (simp add: handleSubmit_def initial_def)
  have 7: "pending (run (start t f) (replicate n Tick)) =
           (if int n < durationMinutes t * 60 then []
            else [(score_loop (questions t) 0 (replicate (length (questions t)) (JNum (- 1))) 0,
                   length (questions t))])"
    unfolding r by (simp add: handleSubmit_def initial_def)
  have 8: "emitted (run (start t f) (replicate n Tick)) = []"
    unfolding r by (simp add: handleSubmit_def initial_def)
  have 9: "emitted (run (start t f) (replicate n Tick @ [DelayElapsed])) =
           (if int n < durationMinutes t * 60 \<or> \<not> f then []
            else [(score_loop (questions t) 0 (replicate (length (questions t)) (JNum (- 1))) 0,
                   length (questions t))])"
    unfolding run_append r by (simp add: handleSubmit_def submitResume_def initial_def)
  from 1 2 3 m 4 6 7 8 9 show ?thesis by blast
qed

theorem timer_counts_down_witness:
  "durationMinutes sampleTest2 = 1
   \<and> timeLeft (initial sampleTest2 True) = 60
   \<and> timeLeft (run (start sampleTest2 True) (replicate 59 Tick)) = 1
   \<and> pending (run (start sampleTest2 True) (replicate 59 Tick)) = []
   \<and> timeLeft (run (start sampleTest2 True) (replicate 60 Tick)) = 0
   \<and> pending (run (start sampleTest2 True) (replicate 60 Tick)) = [(0, 2)]
   \<and> timeLeft (run (start sampleTest2 True) (replicate 75 Tick)) = 0
   \<and> pending (run (start sampleTest2 True) (replicate 75 Tick)) = [(0, 2)]
   \<and> emitted (run (start sampleTest2 True) (replicate 60 Tick @ [DelayElapsed])) = [(0, 2)]"
proof -
  have d: "durationMinutes sampleTest2 = 1"
    by (simp add: sampleTest2_def sampleTest_def)
  then have h: "0 \<le> durationMinutes sampleTest2" by simp
  have sc: "score_loop (questions sampleTest2) 0 (replicate 2 (JNum (- 1))) 0 = 0"
    "length (questions sampleTest2) = 2"
    by (simp_all add: sampleTest2_def sampleTest_def sampleQ_def js_get_def)
  from timer_counts_down[OF h, of True "[]" "initial sampleTest2 True" 59]
       timer_counts_down[OF h, of True "[]" "initial sampleTest2 True" 60]
       timer_counts_down[OF h, of True "[]" "initial sampleTest2 True" 75]
  show ?thesis
    by (simp add: sc d)
qed

subsection \<open>A missing completion handler\<close>

text \<open>
  While the delay of a submission runs, the events that reach the component leave the
  waiting continuation, the score log and the console alone, whatever \<open>onFinish\<close> is.
\<close>

lemma step_during_delay:
  assumes "duringDelay e" and "isSubmitting s"
  shows "isSubmitting (step s e) \<and> pending (step s e) = pending s
       \<and> emitted (step s e) = emitted s \<and> console (step s e) = console s
       \<and> alerts (step s e) = alerts s"
  using assms by (cases e) (auto simp: handler_defs)

lemma run_during_delay:
  assumes "list_all duringDelay es" and "isSubmitting s"
  shows "isSubmitting (run s es) \<and> pending (run s es) = pending s
       \<and> emitted (run s es) = emitted s \<and> console (run s es) = console s
       \<and> alerts (run s es) = alerts s"
  using assms
proof (induction es arbitrary: s)
  case Nil
  then show ?case by simp
next
  case (Cons e es)
  from Cons.prems(1) have e: "duringDelay e" and es: "list_all duringDelay es" by simp_all
  note st = step_during_delay[OF e Cons.prems(2)]
  then have "isSubmitting (step s e)" by blast
  from Cons.IH[OF es this] st show ?case by simp
qed

lemma never_emits_without_onFinish:
  assumes "\<not> onFinish s"
  shows "emitted (run s es) = emitted s"
  using assms
proof (induction es arbitrary: s)
  case Nil
  then show ?case by simp
next
  case (Cons e es)
  have "emitted (step s e) = emitted s"
    using Cons.prems by (cases e) (auto simp: handler_defs split: list.splits prod.splits)
  moreover have "\<not> onFinish (step s e)"
    using Cons.prems by (simp add: step_props)
  ultimately show ?case using Cons.IH by simp
qed

text \<open>
  Claim C1, as amended. Let \<open>onFinish\<close> be absent and the attempt Running. After a
  submit, and through every event that reaches the closures of the latest render while
  the delay runs (the timer keeps ticking, further submits are stopped by the guard),
  the attempt is Submitting with the one computed score waiting and nothing written.
  When the delay
  has elapsed, the component writes \<open>onFinish prop missing\<close> to the console, drops the
  waiting score and sets \<open>isSubmitting\<close> back to false, and changes nothing else: the
  attempt is Running again, with the answers, the cursor and the timer where the events
  of the delay have left them. No run of events, of any kind, ever hands over a score,
  so the attempt is never Finished.
\<close>

theorem missing_onFinish_resets:
  assumes "\<not> onFinish s" and "\<not> isSubmitting s" and "pending s = []"
    and "list_all duringDelay es"
  shows "isSubmitting (run s (Submit # es))
       \<and> pending (run s (Submit # es)) =
           [(score_loop (questions (test s)) 0 (answers s) 0, length (questions (test s)))]
       \<and> console (run s (Submit # es)) = console s
       \<and> run s (Submit # es @ [DelayElapsed]) =
           (run s (Submit # es))
             \<lparr>pending := [], console := console s @ [''onFinish prop missing''],
              isSubmitting := False\<rparr>
       \<and> run s (Submit # es @ [DelayElapsedThrows]) = run s (Submit # es @ [DelayElapsed])
       \<and> \<not> isSubmitting (run s (Submit # es @ [DelayElapsed]))
       \<and> emitted (run s es') = emitted s"
proof -
  let ?s1 = "step s Submit"
  let ?x = "(score_loop (questions (test s)) 0 (answers s) 0, length (questions (test s)))"
  have s1: "isSubmitting ?s1" "pending ?s1 = [?x]" "console ?s1 = console s"
    using assms(2,3) by (simp_all add: handleSubmit_def)
  from run_during_delay[OF assms(4) s1(1)] s1
  have w: "isSubmitting (run ?s1 es)" "pending (run ?s1 es) = [?x]"
    "console (run ?s1 es) = console s"
    by simp_all
  have nf: "\<not> onFinish (run ?s1 es)"
    using assms(1) by (metis run_props step_props)
  have r: "run s (Submit # es @ [e]) = step (run ?s1 es) e" for e
    using run_append[of ?s1 es "[e]"] by simp
  have 4: "run s (Submit # es @ [DelayElapsed]) =
           (run s (Submit # es))
             \<lparr>pending := [], console := console s @ [''onFinish prop missing''],
              isSubmitting := False\<rparr>"
    unfolding r using w nf by (simp add: submitResume_def)
  have 5: "run s (Submit # es @ [DelayElapsedThrows]) = run s (Submit # es @ [DelayElapsed])"
    unfolding r using nf by (simp add: submitResume_def split: list.splits)
  have 6: "\<not> isSubmitting (run s (Submit # es @ [DelayElapsed]))"
    unfolding 4 by simp
  have 1: "isSubmitting (run s (Submit # es))"
    "pending (run s (Submit # es)) = [?x]" "console (run s (Submit # es)) = console s"
    using w by simp_all
  from 1 4 5 6 never_emits_without_onFinish[OF assms(1), of es'] show ?thesis
    by blast
qed

lemma orphanRunner_eq: "orphanRunner = initial sampleTest2 False"
  by (simp add: orphanRunner_def start_def timerEffect_def initial_def
      sampleTest2_def sampleTest_def)

theorem missing_onFinish_resets_witness:
  "\<not> onFinish orphanRunner \<and> \<not> isSubmitting orphanRunner \<and> pending orphanRunner = []
   \<and> list_all duringDelay [Tick, Submit]
   \<and> timeLeft orphanRunner = 60
   \<and> isSubmitting (run orphanRunner [Submit, Tick, Submit])
   \<and> pending (run orphanRunner [Submit, Tick, Submit]) = [(0, 2)]
   \<and> timeLeft (run orphanRunner [Submit, Tick, Submit, DelayElapsed]) = 59
   \<and> console (run orphanRunner [Submit, Tick, Submit, DelayElapsed]) = [''onFinish prop missing'']
   \<and> pending (run orphanRunner [Submit, Tick, Submit, DelayElapsed]) = []
   \<and> \<not> isSubmitting (run orphanRunner [Submit, Tick, Submit, DelayElapsed])
   \<and> emitted (run orphanRunner [Submit, Tick, Submit, DelayElapsed, Submit, DelayElapsed]) = []"
proof -
  have h: "\<not> onFinish orphanRunner" "\<not> isSubmitting orphanRunner" "pending orphanRunner = []"
    unfolding orphanRunner_eq by (simp_all add: initial_def)
  have d: "list_all duringDelay [Tick, Submit]" by simp
  have c: "console orphanRunner = []" "emitted orphanRunner = []" "timeLeft orphanRunner = 60"
    "score_loop (questions (test orphanRunner)) 0 (answers orphanRunner) 0 = 0"
    "length (questions (test orphanRunner)) = 2"
    unfolding orphanRunner_eq
    by (simp_all add: initial_def sampleTest2_def sampleTest_def sampleQ_def js_get_def)
  have t: "timeLeft (run orphanRunner [Submit, Tick, Submit]) = 59"
    unfolding orphanRunner_eq
    by (simp add: initial_def handleSubmit_def tick_def timerEffect_def
        sampleTest2_def sampleTest_def)
  note th = missing_onFinish_resets[OF h d,
      of "[Submit, Tick, Submit, DelayElapsed, Submit, DelayElapsed]"]
  from th have 1: "isSubmitting (run orphanRunner [Submit, Tick, Submit])"
    and 2: "pending (run orphanRunner [Submit, Tick, Submit]) = [(0, 2)]"
    and 6: "\<not> isSubmitting (run orphanRunner [Submit, Tick, Submit, DelayElapsed])"
    and 7: "emitted (run orphanRunner [Submit, Tick, Submit, DelayElapsed, Submit, DelayElapsed])
              = []"
    unfolding c by (simp_all del: run_Cons)
  from th have e: "run orphanRunner [Submit, Tick, Submit, DelayElapsed] =
           (run orphanRunner [Submit, Tick, Submit])
             \<lparr>pending := [], console := [''onFinish prop missing''], isSubmitting := False\<rparr>"
    unfolding c by (simp del: run_Cons)
  have 3: "timeLeft (run orphanRunner [Submit, Tick, Submit, DelayElapsed]) = 59"
    and 4: "console (run orphanRunner [Submit, Tick, Submit, DelayElapsed])
              = [''onFinish prop missing'']"
    and 5: "pending (run orphanRunner [Submit, Tick, Submit, DelayElapsed]) = []"
    unfolding e using t by (simp_all del: run_Cons)
  from h d c(3) 1 2 3 4 5 6 7 show ?thesis by blast
qed

text \<open>
  The claim as stated fails: after the delay the attempt is not Submitting, and the
  score it had computed is neither waiting nor handed over; so it is with the tick
  that falls into the delay.
\<close>

theorem missing_onFinish_counterexample:
  "status_of (run orphanRunner [Submit]) = Submitting
   \<and> pending (run orphanRunner [Submit]) = [(0, 2)]
   \<and> status_of (run orphanRunner [Submit, DelayElapsed]) = Running
   \<and> pending (run orphanRunner [Submit, DelayElapsed]) = []
   \<and> emitted (run orphanRunner [Submit, DelayElapsed]) = []
   \<and> status_of (run orphanRunner [Submit, Tick, DelayElapsed]) = Running
   \<and> pending (run orphanRunner [Submit, Tick, DelayElapsed]) = []
   \<and> emitted (run orphanRunner [Submit, Tick, DelayElapsed]) = []"
  unfolding orphanRunner_eq
  by (simp add: status_of_def initial_def handleSubmit_def submitResume_def js_get_def
      tick_def timerEffect_def sampleTest2_def sampleTest_def sampleQ_def)

subsection \<open>Selecting an answer\<close>

text \<open>
  Claim C2, as amended. \<open>handleSelect\<close> checks no bounds and reports no failure. In
  every state that an attempt on a non-empty test can reach, the cursor is inside the
  answer array, and for every index, in the range of the options or not,
  \<open>handleSelect\<close> writes it into the slot at the cursor, over the earlier choice, and
  changes nothing else.
\<close>

theorem handleSelect_writes_any_index:
  assumes "questions t \<noteq> []" and "s = run (start t f) es"
  shows "currentQ s < length (answers s)
       \<and> handleSelect idx s = s\<lparr>answers := (answers s)[currentQ s := JNum idx]\<rparr>
       \<and> length (answers (handleSelect idx s)) = length (answers s)
       \<and> (\<forall>j. js_get (answers (handleSelect idx s)) j =
               (if j = currentQ s then JNum idx else js_get (answers s) j))"
proof -
  have c: "currentQ s < length (answers s)"
    using reachable_cursor[OF assms(1), of f es] assms(2) by simp
  then show ?thesis
    by (simp add: handleSelect_def js_set_def js_get_def)
qed

theorem handleSelect_writes_any_index_witness:
  "questions sampleTest2 \<noteq> []
   \<and> currentQ sampleRunner < length (answers sampleRunner)
   \<and> answers (handleSelect 3 sampleRunner) = [JNum 3, JNum (- 1)]
   \<and> answers (handleSelect 7 sampleRunner) = [JNum 7, JNum (- 1)]"
proof -
  have h: "questions sampleTest2 \<noteq> []"
    by (simp add: sampleTest2_def sampleTest_def)
  note th = handleSelect_writes_any_index[OF h sampleRunner_def]
  from th[of 3] th[of 7] h show ?thesis
    by (simp add: sampleRunner_fields)
qed

text \<open>
  The claim as stated fails: the first question has four options, and index 7 is
  stored all the same.
\<close>

theorem handleSelect_counterexample:
  "length (options (questions (test sampleRunner) ! currentQ sampleRunner)) = 4
   \<and> answers sampleRunner = [JNum 1, JNum (- 1)]
   \<and> answers (handleSelect 7 sampleRunner) = [JNum 7, JNum (- 1)]
   \<and> handleSelect 7 sampleRunner \<noteq> sampleRunner"
proof -
  have 1: "length (options (questions (test sampleRunner) ! currentQ sampleRunner)) = 4"
    by (simp add: sampleRunner_fields sampleTest2_def sampleTest_def sampleQ_def)
  have 2: "answers (handleSelect 7 sampleRunner) = [JNum 7, JNum (- 1)]"
    by (simp add: handleSelect_def js_set_def sampleRunner_fields)
  have "answers (handleSelect 7 sampleRunner) \<noteq> answers sampleRunner"
    unfolding 2 by (simp add: sampleRunner_fields)
  then have "handleSelect 7 sampleRunner \<noteq> sampleRunner" by auto
  with 1 2 sampleRunner_fields(5) show ?thesis by blast
qed

section \<open>Properties of the catalog partitioner\<close>

subsection \<open>The stable sort\<close>

lemma mset_insert_by: "mset (insert_by cmp x ys) = add_mset x (mset ys)"
  by (induction ys) simp_all

lemma mset_sort_by: "mset (sort_by cmp xs) = mset xs"
  by (induction xs) (simp_all add: mset_insert_by)

lemma set_insert_by: "set (insert_by cmp x ys) = insert x (set ys)"
  using mset_insert_by[of cmp x ys, THEN arg_cong, of set_mset] by simp

lemma set_sort_by: "set (sort_by cmp xs) = set xs"
  using mset_sort_by[of cmp xs, THEN arg_cong, of set_mset] by simp

lemma sorted_insert_by:
  assumes total: "\<And>a b. cmp a b \<le> 0 \<or> cmp b a \<le> 0"
    and trans: "\<And>a b c. cmp a b \<le> 0 \<Longrightarrow> cmp b c \<le> 0 \<Longrightarrow> cmp a c \<le> 0"
    and "sorted_wrt (\<lambda>a b. cmp a b \<le> 0) ys"
  shows "sorted_wrt (\<lambda>a b. cmp a b \<le> (0::int)) (insert_by cmp x ys)"
  using assms(3)
proof (induction ys)
  case Nil
  then show ?case by simp
next
  case (Cons y ys)
  show ?case
  proof (cases "cmp x y \<le> 0")
    case True
    with Cons.prems trans show ?thesis by auto
  next
    case False
    with total have "cmp y x \<le> 0" by blast
    with False Cons show ?thesis
      by (auto simp: set_insert_by)
  qed
qed

lemma sorted_sort_by:
  assumes "\<And>a b. cmp a b \<le> 0 \<or> cmp b a \<le> 0"
    and "\<And>a b c. cmp a b \<le> 0 \<Longrightarrow> cmp b c \<le> 0 \<Longrightarrow> cmp a c \<le> 0"
  shows "sorted_wrt (\<lambda>a b. cmp a b \<le> (0::int)) (sort_by cmp xs)"
proof (induction xs)
  case Nil
  show ?case by simp
next
  case (Cons x xs)
  from sorted_insert_by[of cmp "sort_by cmp xs" x, OF assms Cons]
  show ?case by simp
qed

lemma paper_cmp_codeOrder:
  "paper_cmp codeOrder a b \<le> 0 \<longleftrightarrow>
     year_p b < year_p a \<or> (year_p a = year_p b \<and> slot_p a \<le> slot_p b)"
  by (auto simp: paper_cmp_def codeOrder_def Let_def)

subsection \<open>The map of papers\<close>

lemma map_set_new: "k \<notin> set (map fst m) \<Longrightarrow> map_set m k v = m @ [(k, v)]"
  by (induction m) auto

lemma count_incr_absent: "k \<notin> set (map fst m) \<Longrightarrow> count_incr m k = m"
  by (induction m) auto

lemma count_incr_append:
  "k \<notin> set (map fst m) \<Longrightarrow>
   count_incr (m @ [(k, d)]) k = m @ [(k, d\<lparr>count_d := count_d d + 1\<rparr>)]"
  by (induction m) auto

lemma count_incr_keys: "map fst (count_incr m k) = map fst m"
  by (induction m) auto

lemma count_incr_set:
  "distinct (map fst m) \<Longrightarrow>
   set (count_incr m k) =
     (\<lambda>(k', d). if k' = k then (k', d\<lparr>count_d := count_d d + 1\<rparr>) else (k', d)) ` set m"
proof (induction m)
  case Nil
  then show ?case by simp
next
  case (Cons a m)
  obtain k' v' where a: "a = (k', v')" by (cases a)
  show ?case
  proof (cases "k' = k")
    case True
    with Cons.prems a have "k \<notin> set (map fst m)" by simp
    then have "\<And>x. x \<in> set m \<Longrightarrow>
        (case x of (k', d) \<Rightarrow> if k' = k then (k', d\<lparr>count_d := count_d d + 1\<rparr>) else (k', d)) = x"
      by (auto simp: image_iff)
    then have "(\<lambda>(k', d). if k' = k then (k', d\<lparr>count_d := count_d d + 1\<rparr>) else (k', d)) ` set m
        = set m"
      by (simp add: image_def)
    with True a show ?thesis by simp
  next
    case False
    with Cons a show ?thesis by simp
  qed
qed

lemma pyq_step_old:
  assumes "key_of q \<in> set (map fst m)"
  shows "pyq_step m q = count_incr m (key_of q)"
  using assms by (simp add: pyq_step_def Let_def map_has_def key_of_def)

lemma pyq_step_new:
  assumes "key_of q \<notin> set (map fst m)"
  shows "pyq_step m q =
           m @ [(key_of q, \<lparr>year_d = year_of q, slot_d = slot_of q, count_d = 1\<rparr>)]"
  using assms
  by (simp add: pyq_step_def Let_def map_has_def key_of_def map_set_new count_incr_append)

lemma pyq_step_inv:
  assumes d: "distinct (map fst m)"
    and k: "set (map fst m) = key_of ` set qs"
    and c: "\<forall>(k, d)\<in>set m.
              (\<exists>x\<in>set qs. key_of x = k \<and> year_d d = year_of x \<and> slot_d d = slot_of x)
              \<and> count_d d = length (filter (\<lambda>x. key_of x = k) qs)"
  shows "distinct (map fst (pyq_step m q))
       \<and> set (map fst (pyq_step m q)) = key_of ` set (qs @ [q])
       \<and> (\<forall>(k, d)\<in>set (pyq_step m q).
              (\<exists>x\<in>set (qs @ [q]). key_of x = k \<and> year_d d = year_of x \<and> slot_d d = slot_of x)
              \<and> count_d d = length (filter (\<lambda>x. key_of x = k) (qs @ [q])))"
proof (cases "key_of q \<in> set (map fst m)")
  case True
  have s: "pyq_step m q = count_incr m (key_of q)"
    using True by (rule pyq_step_old)
  have 1: "distinct (map fst (pyq_step m q))"
    using d by (simp add: s count_incr_keys)
  have 2: "set (map fst (pyq_step m q)) = key_of ` set (qs @ [q])"
    using k True by (auto simp: s count_incr_keys)
  have 3: "\<forall>(k, d)\<in>set (pyq_step m q).
              (\<exists>x\<in>set (qs @ [q]). key_of x = k \<and> year_d d = year_of x \<and> slot_d d = slot_of x)
              \<and> count_d d = length (filter (\<lambda>x. key_of x = k) (qs @ [q]))"
    using c unfolding s count_incr_set[OF d] by (fastforce split: if_splits)
  from 1 2 3 show ?thesis by blast
next
  case False
  have s: "pyq_step m q =
           m @ [(key_of q, \<lparr>year_d = year_of q, slot_d = slot_of q, count_d = 1\<rparr>)]"
    using False by (rule pyq_step_new)
  have 1: "distinct (map fst (pyq_step m q))"
    using d False by (simp add: s)
  have 2: "set (map fst (pyq_step m q)) = key_of ` set (qs @ [q])"
    using k by (auto simp: s)
  have n: "filter (\<lambda>x. key_of x = key_of q) qs = []"
  proof -
    from False k have "key_of q \<notin> key_of ` set qs" by simp
    then have "\<forall>x\<in>set qs. key_of x \<noteq> key_of q" by (metis imageI)
    then show ?thesis by (simp add: filter_empty_conv)
  qed
  have o: "k' \<noteq> key_of q" if "(k', d') \<in> set m" for k' d'
    using that False by (auto simp: image_iff)
  have 3: "\<forall>(k, d)\<in>set (pyq_step m q).
              (\<exists>x\<in>set (qs @ [q]). key_of x = k \<and> year_d d = year_of x \<and> slot_d d = slot_of x)
              \<and> count_d d = length (filter (\<lambda>x. key_of x = k) (qs @ [q]))"
  proof -
    have "(\<exists>x\<in>set (qs @ [q]). key_of x = k' \<and> year_d d' = year_of x \<and> slot_d d' = slot_of x)
        \<and> count_d d' = length (filter (\<lambda>x. key_of x = k') (qs @ [q]))"
      if "(k', d') \<in> set (pyq_step m q)" for k' d'
    proof -
      from that consider "(k', d') \<in> set m"
        | "k' = key_of q" and "d' = \<lparr>year_d = year_of q, slot_d = slot_of q, count_d = 1\<rparr>"
        unfolding s by auto
      then show ?thesis
      proof cases
        case 1
        with c have "\<exists>x\<in>set qs. key_of x = k' \<and> year_d d' = year_of x \<and> slot_d d' = slot_of x"
          and "count_d d' = length (filter (\<lambda>x. key_of x = k') qs)"
          by auto
        with o[OF 1] show ?thesis by auto
      next
        case 2
        then show ?thesis by (simp add: n)
      qed
    qed
    then show ?thesis by auto
  qed
  from 1 2 3 show ?thesis by blast
qed

lemma pyqMap_of_inv:
  "distinct (map fst (pyqMap_of qs))
   \<and> set (map fst (pyqMap_of qs)) = key_of ` set qs
   \<and> (\<forall>(k, d)\<in>set (pyqMap_of qs).
          (\<exists>x\<in>set qs. key_of x = k \<and> year_d d = year_of x \<and> slot_d d = slot_of x)
          \<and> count_d d = length (filter (\<lambda>x. key_of x = k) qs))"
proof (induction qs rule: rev_induct)
  case Nil
  show ?case by (simp add: pyqMap_of_def)
next
  case (snoc q qs)
  have "pyqMap_of (qs @ [q]) = pyq_step (pyqMap_of qs) q"
    by (simp add: pyqMap_of_def)
  with pyq_step_inv[of "pyqMap_of qs" qs q] snoc show ?case
    by presburger
qed

lemma key_split:
  "CHR ''-'' \<notin> set y \<Longrightarrow> CHR ''-'' \<notin> set y' \<Longrightarrow> y @ ''-'' @ s = y' @ ''-'' @ s' \<Longrightarrow>
   y = y' \<and> s = s'"
proof (induction y arbitrary: y')
  case Nil
  then show ?case by (cases y') auto
next
  case (Cons c y)
  then show ?case by (cases y') auto
qed

lemma key_of_eq_iff:
  assumes "CHR ''-'' \<notin> set (year_of a)" and "CHR ''-'' \<notin> set (year_of b)"
  shows "key_of a = key_of b \<longleftrightarrow> year_of a = year_of b \<and> slot_of a = slot_of b"
  using key_split[OF assms, of "slot_of a" "slot_of b"] by (auto simp: key_of_def)

lemma papers_fields:
  "set (buildPaperDescriptors lc qs) =
     (\<lambda>(k, d). \<lparr>id_p = k, year_p = year_d d, slot_p = slot_d d, count_p = count_d d\<rparr>)
       ` set (pyqMap_of qs)"
  "map id_p (map (\<lambda>(k, d). \<lparr>id_p = k, year_p = year_d d, slot_p = slot_d d, count_p = count_d d\<rparr>)
       (pyqMap_of qs)) = map fst (pyqMap_of qs)"
  by (auto simp: buildPaperDescriptors_def set_sort_by)

lemma papers_ids:
  "distinct (map id_p (buildPaperDescriptors lc qs))"
  "set (map id_p (buildPaperDescriptors lc qs)) = key_of ` set qs"
proof -
  let ?ps = "map (\<lambda>(k, d). \<lparr>id_p = k, year_p = year_d d, slot_p = slot_d d, count_p = count_d d\<rparr>)
       (pyqMap_of qs)"
  have "mset (map id_p (sort_by (paper_cmp lc) ?ps)) = mset (map id_p ?ps)"
    by (simp only: mset_map mset_sort_by)
  also have "map id_p ?ps = map fst (pyqMap_of qs)"
    by (rule papers_fields(2))
  finally have m: "mset (map id_p (buildPaperDescriptors lc qs)) = mset (map fst (pyqMap_of qs))"
    by (simp only: buildPaperDescriptors_def)
  from pyqMap_of_inv[of qs] have "distinct (map fst (pyqMap_of qs))" by blast
  with m show "distinct (map id_p (buildPaperDescriptors lc qs))"
    by (metis mset_eq_imp_distinct_iff)
  from m have "set (map id_p (buildPaperDescriptors lc qs)) = set (map fst (pyqMap_of qs))"
    by (metis set_mset_mset)
  with pyqMap_of_inv[of qs] show "set (map id_p (buildPaperDescriptors lc qs)) = key_of ` set qs"
    by simp
qed

lemma papers_members:
  assumes "p \<in> set (buildPaperDescriptors lc qs)"
  shows "(\<exists>x\<in>set qs. key_of x = id_p p \<and> year_p p = year_of x \<and> slot_p p = slot_of x)"
    and "count_p p = length (filter (\<lambda>x. key_of x = id_p p) qs)"
proof -
  from assms obtain k d where kd: "(k, d) \<in> set (pyqMap_of qs)"
    and p: "p = \<lparr>id_p = k, year_p = year_d d, slot_p = slot_d d, count_p = count_d d\<rparr>"
    unfolding papers_fields(1) by auto
  from pyqMap_of_inv[of qs] kd
  have "(\<exists>x\<in>set qs. key_of x = k \<and> year_d d = year_of x \<and> slot_d d = slot_of x)
      \<and> count_d d = length (filter (\<lambda>x. key_of x = k) qs)"
    by blast
  then show "(\<exists>x\<in>set qs. key_of x = id_p p \<and> year_p p = year_of x \<and> slot_p p = slot_of x)"
    and "count_p p = length (filter (\<lambda>x. key_of x = id_p p) qs)"
    by (simp_all add: p)
qed

subsection \<open>Paper descriptors\<close>

text \<open>
  What \<open>buildPaperDescriptors\<close> does on every catalog, whatever the collation: one
  descriptor for each string \<open>`${year}-${slot}`\<close> that occurs, carrying the year and
  slot of a question with that string and the number of questions with that string.
  When no year contains the character \<open>-\<close>, the string determines the pair, and the
  count is the number of questions with the descriptor's year and slot.
\<close>

lemma paper_descriptors_by_key:
  "distinct (map id_p (buildPaperDescriptors lc qs))
   \<and> set (map id_p (buildPaperDescriptors lc qs)) = key_of ` set qs
   \<and> (\<forall>p\<in>set (buildPaperDescriptors lc qs).
         id_p p = year_p p @ ''-'' @ slot_p p
       \<and> (\<exists>x\<in>set qs. year_of x = year_p p \<and> slot_of x = slot_p p)
       \<and> count_p p = length (filter (\<lambda>x. key_of x = id_p p) qs))
   \<and> ((\<forall>x\<in>set qs. CHR ''-'' \<notin> set (year_of x)) \<longrightarrow>
        (\<forall>p\<in>set (buildPaperDescriptors lc qs).
           count_p p = length (filter (\<lambda>x. year_of x = year_p p \<and> slot_of x = slot_p p) qs)))"
proof -
  have 3: "id_p p = year_p p @ ''-'' @ slot_p p
       \<and> (\<exists>x\<in>set qs. year_of x = year_p p \<and> slot_of x = slot_p p)
       \<and> count_p p = length (filter (\<lambda>x. key_of x = id_p p) qs)"
    if "p \<in> set (buildPaperDescriptors lc qs)" for p
    using papers_members[OF that] by (auto simp: key_of_def)
  have 5: "count_p p = length (filter (\<lambda>x. year_of x = year_p p \<and> slot_of x = slot_p p) qs)"
    if h: "\<forall>x\<in>set qs. CHR ''-'' \<notin> set (year_of x)"
      and p: "p \<in> set (buildPaperDescriptors lc qs)" for p
  proof -
    from papers_members(1)[OF p] obtain x0 where x0: "x0 \<in> set qs" "key_of x0 = id_p p"
      "year_p p = year_of x0" "slot_p p = slot_of x0"
      by blast
    have "filter (\<lambda>x. key_of x = id_p p) qs
        = filter (\<lambda>x. year_of x = year_p p \<and> slot_of x = slot_p p) qs"
    proof (rule filter_cong[OF refl])
      fix x assume "x \<in> set qs"
      with h x0(1) have "CHR ''-'' \<notin> set (year_of x)" "CHR ''-'' \<notin> set (year_of x0)"
        by blast+
      from key_of_eq_iff[OF this]
      show "(key_of x = id_p p) = (year_of x = year_p p \<and> slot_of x = slot_p p)"
        by (simp add: x0)
    qed
    with papers_members(2)[OF p] show ?thesis by simp
  qed
  from papers_ids[of lc qs] 3 5 show ?thesis by blast
qed

text \<open>
  The descriptors are sorted by the comparator whenever the comparator orders the
  descriptors (any two comparable, transitively); for the order of the character codes
  that is year descending, then slot ascending.
\<close>

lemma paper_descriptors_sorted:
  assumes "\<And>a b. paper_cmp lc a b \<le> 0 \<or> paper_cmp lc b a \<le> 0"
    and "\<And>a b c. paper_cmp lc a b \<le> 0 \<Longrightarrow> paper_cmp lc b c \<le> 0 \<Longrightarrow> paper_cmp lc a c \<le> 0"
  shows "sorted_wrt (\<lambda>a b. paper_cmp lc a b \<le> 0) (buildPaperDescriptors lc qs)"
  unfolding buildPaperDescriptors_def using assms by (rule sorted_sort_by)

lemma paper_descriptors_codeOrder:
  "sorted_wrt (\<lambda>a b. year_p b < year_p a \<or> (year_p a = year_p b \<and> slot_p a \<le> slot_p b))
     (buildPaperDescriptors codeOrder qs)"
proof -
  have "sorted_wrt (\<lambda>a b. paper_cmp codeOrder a b \<le> 0) (buildPaperDescriptors codeOrder qs)"
    by (rule paper_descriptors_sorted) (auto simp: paper_cmp_codeOrder)
  then show ?thesis by (simp add: paper_cmp_codeOrder)
qed

lemma paper_descriptors_sample:
  "buildPaperDescriptors codeOrder sampleYears =
     [\<lparr>id_p = ''2023-Slot 1'', year_p = ''2023'', slot_p = ''Slot 1'', count_p = 2\<rparr>,
      \<lparr>id_p = ''2022-Slot 1'', year_p = ''2022'', slot_p = ''Slot 1'', count_p = 1\<rparr>,
      \<lparr>id_p = ''2021-Slot 1'', year_p = ''2021'', slot_p = ''Slot 1'', count_p = 1\<rparr>]"
  by code_simp

text \<open>
  Claim C8. Whatever the collation, the grouping is by the string
  \<open>`${year}-${slot}`\<close>, not by the pair: the two
  questions of \<open>sampleClash\<close> have different years and different slots and share one
  descriptor, with count 2. \<open>startPyqTest\<close>, which compares the two fields, starts a
  paper of one question from that descriptor, and the other question's paper, which it
  would start as well, has no descriptor.
\<close>

theorem paper_key_clash:
  "map (\<lambda>x. (year_of x, slot_of x)) sampleClash = [(''2023-1'', ''A''), (''2023'', ''1-A'')]
   \<and> buildPaperDescriptors lc sampleClash =
       [\<lparr>id_p = ''2023-1-A'', year_p = ''2023-1'', slot_p = ''A'', count_p = 2\<rparr>]
   \<and> (case startPyqTest sampleClash ''2023-1'' ''A'' of
         Inl e \<Rightarrow> [] | Inr t \<Rightarrow> map id_q (questions t)) = [''a'']
   \<and> (case startPyqTest sampleClash ''2023'' ''1-A'' of
         Inl e \<Rightarrow> [] | Inr t \<Rightarrow> map id_q (questions t)) = [''b'']"
proof -
  have y: "map (\<lambda>x. (year_of x, slot_of x)) sampleClash = [(''2023-1'', ''A''), (''2023'', ''1-A'')]"
    by code_simp
  have m: "pyqMap_of sampleClash =
      [(''2023-1-A'', \<lparr>year_d = ''2023-1'', slot_d = ''A'', count_d = 2\<rparr>)]"
    by code_simp
  have b: "buildPaperDescriptors lc sampleClash =
       [\<lparr>id_p = ''2023-1-A'', year_p = ''2023-1'', slot_p = ''A'', count_p = 2\<rparr>]"
    by (simp add: buildPaperDescriptors_def m)
  have s: "(case startPyqTest sampleClash ''2023-1'' ''A'' of
         Inl e \<Rightarrow> [] | Inr t \<Rightarrow> map id_q (questions t)) = [''a'']"
    "(case startPyqTest sampleClash ''2023'' ''1-A'' of
         Inl e \<Rightarrow> [] | Inr t \<Rightarrow> map id_q (questions t)) = [''b'']"
    by code_simp+
  from y b s show ?thesis by blast
qed

subsection \<open>Mock tests\<close>

lemma sampleCatalog_parts:
  "quantQs (sampleCatalog n) = replicate n (sampleQ ''q'' Quant 0 None None)"
  "varcQs (sampleCatalog n) = replicate n (sampleQ ''v'' VARC 1 None None)"
  "dilrQs (sampleCatalog n) = replicate n (sampleQ ''d'' DILR 2 None None)"
  by (induction n) (simp_all add: sampleCatalog_def quantQs_def varcQs_def dilrQs_def sampleQ_def)

lemma length_sampleCatalog: "length (sampleCatalog n) = 3 * n"
  by (induction n) (simp_all add: sampleCatalog_def)

lemma permutes_length: "permutes shuffle \<Longrightarrow> length (shuffle xs) = length xs"
  unfolding permutes_def by (metis size_mset)

lemma permutes_rev: "permutes rev"
  by (simp add: permutes_def)

lemma length_fullMockQuestions:
  assumes "permutes shuffle"
  shows "length (fullMockQuestions shuffle qs) =
           min 24 (length (varcQs qs)) + min 20 (length (dilrQs qs))
           + min 22 (length (quantQs qs))"
  by (simp add: fullMockQuestions_def permutes_length[OF assms] min.commute)

lemma sum_length_categories:
  "length (varcQs qs) + length (dilrQs qs) + length (quantQs qs) = length qs"
proof (induction qs)
  case Nil
  show ?case by (simp add: varcQs_def dilrQs_def quantQs_def)
next
  case (Cons q qs)
  then show ?case
    by (cases "category q") (simp_all add: varcQs_def dilrQs_def quantQs_def)
qed

lemma mset_take_subset: "mset (take n xs) \<subseteq># mset xs"
  by (metis append_take_drop_id mset_append mset_subset_eq_add_left)

lemma map_category_const:
  assumes "\<forall>x\<in>set xs. category x = c"
  shows "map category xs = replicate (length xs) c"
  using assms by (induction xs) simp_all

lemma shuffled_category:
  assumes "permutes shuffle"
  shows "map category (take n (shuffle (filter (\<lambda>q. category q = c) qs)))
       = replicate (min n (length (filter (\<lambda>q. category q = c) qs))) c"
proof -
  let ?xs = "shuffle (filter (\<lambda>q. category q = c) qs)"
  have m: "mset ?xs = mset (filter (\<lambda>q. category q = c) qs)"
    using assms by (simp add: permutes_def)
  then have "set ?xs = set (filter (\<lambda>q. category q = c) qs)"
    by (metis set_mset_mset)
  then have "\<forall>x\<in>set (take n ?xs). category x = c"
    by (auto dest: in_set_takeD)
  from map_category_const[OF this]
  show ?thesis using permutes_length[OF assms] by (simp add: min.commute)
qed

text \<open>
  Claim C6. Whatever order each shuffle leaves: when the capped lists hold more than
  five questions together, the question list of the full mock is the first 24 of the
  shuffled VARC questions, then the first 20 of the shuffled DILR questions, then the
  first 22 of the shuffled Quant questions; its categories are a block of VARC, a block
  of DILR and a block of Quant, each as long as its cap allows, and its questions are
  drawn from the catalog without repetition. Each sectional test has exactly the
  questions of its category, in catalog order. With 30 questions in each category the
  full mock has 66 questions, 24 VARC then 20 DILR then 22 Quant, each sectional has 30,
  and all four tests are emitted.
\<close>

theorem full_and_sectional_mocks:
  assumes "permutes shuffle"
  shows "(5 < min 24 (length (filter (\<lambda>q. category q = VARC) qs))
              + min 20 (length (filter (\<lambda>q. category q = DILR) qs))
              + min 22 (length (filter (\<lambda>q. category q = Quant) qs)) \<longrightarrow>
            questions (fullMock shuffle qs) =
              take 24 (shuffle (filter (\<lambda>q. category q = VARC) qs))
              @ take 20 (shuffle (filter (\<lambda>q. category q = DILR) qs))
              @ take 22 (shuffle (filter (\<lambda>q. category q = Quant) qs))
          \<and> map category (questions (fullMock shuffle qs)) =
              replicate (min 24 (length (filter (\<lambda>q. category q = VARC) qs))) VARC
              @ replicate (min 20 (length (filter (\<lambda>q. category q = DILR) qs))) DILR
              @ replicate (min 22 (length (filter (\<lambda>q. category q = Quant) qs))) Quant
          \<and> mset (questions (fullMock shuffle qs)) \<subseteq># mset qs)
       \<and> questions (quantMock qs) = filter (\<lambda>q. category q = Quant) qs
       \<and> questions (varcMock qs) = filter (\<lambda>q. category q = VARC) qs
       \<and> questions (dilrMock qs) = filter (\<lambda>q. category q = DILR) qs
       \<and> (length (filter (\<lambda>q. category q = Quant) qs) = 30
          \<and> length (filter (\<lambda>q. category q = VARC) qs) = 30
          \<and> length (filter (\<lambda>q. category q = DILR) qs) = 30 \<longrightarrow>
            length (questions (fullMock shuffle qs)) = 66
          \<and> map category (questions (fullMock shuffle qs)) =
              replicate 24 VARC @ replicate 20 DILR @ replicate 22 Quant
          \<and> length (questions (quantMock qs)) = 30
          \<and> length (questions (varcMock qs)) = 30
          \<and> length (questions (dilrMock qs)) = 30
          \<and> buildMocks shuffle qs =
              [fullMock shuffle qs, quantMock qs, varcMock qs, dilrMock qs])"
proof -
  let ?V = "filter (\<lambda>q. category q = VARC) qs"
  let ?D = "filter (\<lambda>q. category q = DILR) qs"
  let ?Q = "filter (\<lambda>q. category q = Quant) qs"
  let ?n = "min 24 (length ?V) + min 20 (length ?D) + min 22 (length ?Q)"
  note len = permutes_length[OF assms]
  have m: "mset (shuffle xs) = mset xs" for xs
    using assms by (simp add: permutes_def)
  have fm: "fullMockQuestions shuffle qs =
      take 24 (shuffle ?V) @ take 20 (shuffle ?D) @ take 22 (shuffle ?Q)"
    by (simp add: fullMockQuestions_def varcQs_def dilrQs_def quantQs_def)
  have lfm: "length (fullMockQuestions shuffle qs) = ?n"
    unfolding fm by (simp add: len min.commute)
  have q: "questions (fullMock shuffle qs) =
      take 24 (shuffle ?V) @ take 20 (shuffle ?D) @ take 22 (shuffle ?Q)" if "5 < ?n"
    using that lfm by (simp add: fullMock_def finalQuestions_def fm)
  have c: "map category (take 24 (shuffle ?V) @ take 20 (shuffle ?D) @ take 22 (shuffle ?Q)) =
      replicate (min 24 (length ?V)) VARC @ replicate (min 20 (length ?D)) DILR
      @ replicate (min 22 (length ?Q)) Quant"
    by (simp only: map_append shuffled_category[OF assms])
  have parts: "mset ?V + mset ?D + mset ?Q = mset qs"
  proof (induction qs)
    case Nil
    show ?case by simp
  next
    case (Cons x xs)
    then show ?case by (cases "category x") simp_all
  qed
  have sub: "mset (take 24 (shuffle ?V) @ take 20 (shuffle ?D) @ take 22 (shuffle ?Q))
      \<subseteq># mset qs"
  proof -
    have "mset (take 24 (shuffle ?V)) \<subseteq># mset ?V" "mset (take 20 (shuffle ?D)) \<subseteq># mset ?D"
      "mset (take 22 (shuffle ?Q)) \<subseteq># mset ?Q"
      using mset_take_subset[of 24 "shuffle ?V"] mset_take_subset[of 20 "shuffle ?D"]
        mset_take_subset[of 22 "shuffle ?Q"]
      by (simp_all add: m)
    then have "mset (take 24 (shuffle ?V)) + mset (take 20 (shuffle ?D))
        + mset (take 22 (shuffle ?Q)) \<subseteq># mset ?V + mset ?D + mset ?Q"
      by (intro subset_mset.add_mono)
    then show ?thesis unfolding parts by (simp add: add.assoc)
  qed
  have 1: "5 < ?n \<longrightarrow>
            questions (fullMock shuffle qs) =
              take 24 (shuffle ?V) @ take 20 (shuffle ?D) @ take 22 (shuffle ?Q)
          \<and> map category (questions (fullMock shuffle qs)) =
              replicate (min 24 (length ?V)) VARC @ replicate (min 20 (length ?D)) DILR
              @ replicate (min 22 (length ?Q)) Quant
          \<and> mset (questions (fullMock shuffle qs)) \<subseteq># mset qs"
    using q c sub by simp
  have 3: "questions (quantMock qs) = ?Q" "questions (varcMock qs) = ?V"
    "questions (dilrMock qs) = ?D"
    by (simp_all add: quantMock_def varcMock_def dilrMock_def quantQs_def varcQs_def dilrQs_def)
  have 4: "length (questions (fullMock shuffle qs)) = 66
          \<and> map category (questions (fullMock shuffle qs)) =
              replicate 24 VARC @ replicate 20 DILR @ replicate 22 Quant
          \<and> length (questions (quantMock qs)) = 30
          \<and> length (questions (varcMock qs)) = 30
          \<and> length (questions (dilrMock qs)) = 30
          \<and> buildMocks shuffle qs =
              [fullMock shuffle qs, quantMock qs, varcMock qs, dilrMock qs]"
    if h: "length ?Q = 30" "length ?V = 30" "length ?D = 30"
  proof -
    have n: "5 < ?n" by (simp add: h)
    have qq: "questions (fullMock shuffle qs) =
      take 24 (shuffle ?V) @ take 20 (shuffle ?D) @ take 22 (shuffle ?Q)"
      using q[OF n] .
    have l: "length (questions (fullMock shuffle qs)) = 66"
      unfolding qq by (simp add: len h)
    have k: "map category (questions (fullMock shuffle qs)) =
              replicate 24 VARC @ replicate 20 DILR @ replicate 22 Quant"
      unfolding qq c by (simp add: h)
    have s: "length (questions (quantMock qs)) = 30" "length (questions (varcMock qs)) = 30"
      "length (questions (dilrMock qs)) = 30"
      unfolding 3 by (simp_all add: h)
    from l s have "0 < length (questions (fullMock shuffle qs))"
      "0 < length (questions (quantMock qs))" "0 < length (questions (varcMock qs))"
      "0 < length (questions (dilrMock qs))"
      by simp_all
    then have "buildMocks shuffle qs =
        [fullMock shuffle qs, quantMock qs, varcMock qs, dilrMock qs]"
      unfolding buildMocks_def by simp
    with l k s show ?thesis by blast
  qed
  from 1 3 4 show ?thesis by blast
qed

theorem full_and_sectional_mocks_witness:
  "permutes rev
   \<and> length (filter (\<lambda>q. category q = Quant) (sampleCatalog 30)) = 30
   \<and> length (filter (\<lambda>q. category q = VARC) (sampleCatalog 30)) = 30
   \<and> length (filter (\<lambda>q. category q = DILR) (sampleCatalog 30)) = 30
   \<and> map category (questions (fullMock rev (sampleCatalog 30))) =
       replicate 24 VARC @ replicate 20 DILR @ replicate 22 Quant
   \<and> map (\<lambda>t. length (questions t)) (buildMocks rev (sampleCatalog 30)) = [66, 30, 30, 30]"
proof -
  have h: "length (filter (\<lambda>q. category q = Quant) (sampleCatalog 30)) = 30"
    "length (filter (\<lambda>q. category q = VARC) (sampleCatalog 30)) = 30"
    "length (filter (\<lambda>q. category q = DILR) (sampleCatalog 30)) = 30"
    using sampleCatalog_parts[of 30] by (simp_all add: quantQs_def varcQs_def dilrQs_def)
  from full_and_sectional_mocks[OF permutes_rev, of "sampleCatalog 30"] h
  have b: "buildMocks rev (sampleCatalog 30) =
        [fullMock rev (sampleCatalog 30), quantMock (sampleCatalog 30),
         varcMock (sampleCatalog 30), dilrMock (sampleCatalog 30)]"
    and l: "length (questions (fullMock rev (sampleCatalog 30))) = 66"
      "length (questions (quantMock (sampleCatalog 30))) = 30"
      "length (questions (varcMock (sampleCatalog 30))) = 30"
      "length (questions (dilrMock (sampleCatalog 30))) = 30"
    and k: "map category (questions (fullMock rev (sampleCatalog 30))) =
       replicate 24 VARC @ replicate 20 DILR @ replicate 22 Quant"
    by blast+
  have "map (\<lambda>t. length (questions t)) (buildMocks rev (sampleCatalog 30)) = [66, 30, 30, 30]"
    unfolding b by (simp add: l)
  with permutes_rev h k show ?thesis by blast
qed

text \<open>
  Claim C7. The full mock takes the whole catalog when the capped list has five
  questions or fewer, and the capped list otherwise; the capped list is as long as the
  three caps allow, so a catalog of at most five questions is its own full mock.
\<close>

theorem full_mock_fallback:
  assumes "permutes shuffle"
  shows "questions (fullMock shuffle qs) =
           (if length (fullMockQuestions shuffle qs) \<le> 5 then qs
            else fullMockQuestions shuffle qs)
       \<and> length (fullMockQuestions shuffle qs) =
           min 24 (length (varcQs qs)) + min 20 (length (dilrQs qs))
           + min 22 (length (quantQs qs))
       \<and> (length qs \<le> 5 \<longrightarrow> questions (fullMock shuffle qs) = qs)"
proof -
  have 1: "questions (fullMock shuffle qs) =
           (if length (fullMockQuestions shuffle qs) \<le> 5 then qs
            else fullMockQuestions shuffle qs)"
    by (simp add: fullMock_def finalQuestions_def)
  note 2 = length_fullMockQuestions[OF assms, of qs]
  have "length (fullMockQuestions shuffle qs) \<le> length qs"
    unfolding 2 using sum_length_categories[of qs] by linarith
  with 1 have 3: "length qs \<le> 5 \<longrightarrow> questions (fullMock shuffle qs) = qs"
    by simp
  from 1 2 3 show ?thesis by blast
qed

theorem full_mock_fallback_witness:
  "permutes rev \<and> length (sampleCatalog 1) = 3
   \<and> questions (fullMock rev (sampleCatalog 1)) = sampleCatalog 1
   \<and> length (questions (fullMock rev (sampleCatalog 1))) = 3
   \<and> map category (questions (fullMock rev (sampleCatalog 2)))
       = [VARC, VARC, DILR, DILR, Quant, Quant]"
proof -
  have l: "length (sampleCatalog 1) = 3"
    by (simp add: length_sampleCatalog)
  have l5: "length (sampleCatalog 1) \<le> 5"
    by (simp add: length_sampleCatalog)
  from full_mock_fallback[OF permutes_rev, of "sampleCatalog 1"] l5
  have 1: "questions (fullMock rev (sampleCatalog 1)) = sampleCatalog 1"
    by blast
  have f: "fullMockQuestions rev (sampleCatalog 2) =
      [sampleQ ''v'' VARC 1 None None, sampleQ ''v'' VARC 1 None None,
       sampleQ ''d'' DILR 2 None None, sampleQ ''d'' DILR 2 None None,
       sampleQ ''q'' Quant 0 None None, sampleQ ''q'' Quant 0 None None]"
    by (simp add: fullMockQuestions_def sampleCatalog_parts numeral_2_eq_2)
  from full_mock_fallback[OF permutes_rev, of "sampleCatalog 2"]
  have "questions (fullMock rev (sampleCatalog 2)) = fullMockQuestions rev (sampleCatalog 2)"
    unfolding f by simp
  then have 2: "map category (questions (fullMock rev (sampleCatalog 2)))
       = [VARC, VARC, DILR, DILR, Quant, Quant]"
    unfolding f by (simp add: sampleQ_def)
  from permutes_rev l 1 2 show ?thesis by simp
qed

section \<open>Properties of the session host\<close>

text \<open>
  Claim C10. The handler of a practice card leaves the active test alone when the
  question is premium and starts the one-question practice test otherwise; no click on
  any card of the practice view starts the practice test of a premium question.
\<close>

theorem premium_never_practice:
  "(isPremium q = Some True \<longrightarrow> solveNow q a = a)
   \<and> solveNow q a = (if isPremium q = Some True then a else Some (practiceTest q))
   \<and> practiceClick qs idx a =
       (if idx < min 10 (length qs) \<and> isPremium (qs ! idx) \<noteq> Some True
        then Some (practiceTest (qs ! idx)) else a)
   \<and> (isPremium q = Some True \<longrightarrow>
        (\<forall>idx. practiceClick qs idx None \<noteq> Some (practiceTest q)))"
proof -
  have t: "truthy b \<longleftrightarrow> b = Some True" for b
    by (cases b) (simp_all add: truthy_def)
  have 1: "solveNow q a = (if isPremium q = Some True then a else Some (practiceTest q))"
    by (simp add: solveNow_def handlePracticeQuestion_def t)
  have 2: "practiceClick qs idx a =
       (if idx < min 10 (length qs) \<and> isPremium (qs ! idx) \<noteq> Some True
        then Some (practiceTest (qs ! idx)) else a)" for idx a
    by (auto simp: practiceClick_def solveNow_def handlePracticeQuestion_def t)
  have i: "practiceTest x = practiceTest y \<Longrightarrow> x = y" for x y
    by (simp add: practiceTest_def)
  have 3: "practiceClick qs idx None \<noteq> Some (practiceTest q)" if "isPremium q = Some True" for idx
    unfolding 2 using that i by auto
  from 1 2[of idx a] 3 show ?thesis by simp
qed

theorem premium_never_practice_witness:
  "isPremium premiumQ = Some True
   \<and> solveNow premiumQ None = None
   \<and> practiceClick [premiumQ, sampleQ ''f'' VARC 1 None None] 0 None = None
   \<and> practiceClick [premiumQ, sampleQ ''f'' VARC 1 None None] 1 None
       = Some (practiceTest (sampleQ ''f'' VARC 1 None None))"
proof -
  have p: "isPremium premiumQ = Some True"
    by (simp add: premiumQ_def)
  have n: "isPremium (sampleQ ''f'' VARC 1 None None) = None"
    by (simp add: sampleQ_def)
  from premium_never_practice[of premiumQ None "[premiumQ, sampleQ ''f'' VARC 1 None None]" 0]
    premium_never_practice[of premiumQ None "[premiumQ, sampleQ ''f'' VARC 1 None None]" 1]
    p n
  show ?thesis by simp
qed

end
